theory Spec2Isabelle
  imports Main "HOL-Library.Word" "HOL-Library.Log_Nat"
begin

unbundle bit_operations_syntax

section \<open>Lerc1Decode.py: the Lerc1 (CntZImage) decoder\<close>

text \<open>
  A shallow embedding of \<^verbatim>\<open>OtherLanguages/Python/PurePython_Lerc1Only/Lerc1Decode.py\<close>.
  Python's unbounded integers are \<open>int\<close>; a blob is a list of bytes; every exception the
  source can raise is a value of \<open>pyerror\<close>, and a function that can raise returns
  \<open>pyerror + 'a\<close> with \<open>Inl\<close> the exception.
\<close>

subsection \<open>Bytes, exceptions and \<^verbatim>\<open>struct.unpack_from\<close>\<close>

type_synonym byte = "8 word"
type_synonym blob = "byte list"

datatype pyerror =
    StructError | AssertionError | IndexError | TypeError | StopIteration
  | ValueError | OverflowError | ZeroDivisionError | AttributeError

text \<open>
  \<^verbatim>\<open>struct.unpack_from(fmt, blob, offset)\<close> for a format of \<open>n\<close> bytes: a negative offset
  counts from the end of the buffer, and the call raises \<^verbatim>\<open>struct.error\<close> unless the
  \<open>n\<close> bytes lie inside the buffer.
\<close>

definition unpack_from :: "blob \<Rightarrow> int \<Rightarrow> int \<Rightarrow> pyerror + byte list" where
  "unpack_from blob offset n =
     (let len = int (length blob);
          off = (if offset < 0 then offset + len else offset)
      in if off < 0 \<or> len - off < n then Inl StructError
         else Inr (take (nat n) (drop (nat off) blob)))"

text \<open>Little-endian unsigned value of a byte string, and two's complement reading.\<close>

fun le_uint :: "byte list \<Rightarrow> int" where
  "le_uint [] = 0"
| "le_uint (b # bs) = uint b + 256 * le_uint bs"

definition to_signed :: "nat \<Rightarrow> int \<Rightarrow> int" where
  "to_signed bits v = (if 2 ^ (bits - 1) \<le> v then v - 2 ^ bits else v)"

text \<open>Python's sequence indexing: a negative index counts from the end.\<close>

definition py_index :: "nat \<Rightarrow> int \<Rightarrow> nat option" where
  "py_index len i =
     (if 0 \<le> i \<and> i < int len then Some (nat i)
      else if i < 0 \<and> 0 \<le> i + int len then Some (nat (i + int len))
      else None)"

subsection \<open>Python floats\<close>

text \<open>
  A Python float is an IEEE-754 binary64 value: a finite rational, an infinity
  (\<open>PInf True\<close> is the negative one) or a NaN. The sign of a zero is not represented;
  the source never branches on it. Arithmetic is exact arithmetic on the rationals
  followed by rounding to nearest, ties to even.
\<close>

datatype pyfloat = PFin rat | PInf bool | PNaN

definition rne :: "rat \<Rightarrow> int" where
  "rne x = (let f = \<lfloor>x\<rfloor>; d = x - of_int f
            in if d < 1 / 2 then f else if 1 / 2 < d then f + 1
               else if even f then f else f + 1)"

definition ilog2 :: "rat \<Rightarrow> int" where
  "ilog2 a = (let (n, d) = quotient_of a; e0 = bitlen n - bitlen d
              in if 2 powi e0 \<le> a then e0 else e0 - 1)"

definition round_ieee :: "int \<Rightarrow> int \<Rightarrow> int \<Rightarrow> rat \<Rightarrow> pyfloat" where
  "round_ieee p emin emax q =
     (if q = 0 then PFin 0
      else let a = \<bar>q\<bar>;
               e = max emin (ilog2 a);
               ulp = 2 powi (e - p + 1);
               r = of_int (rne (a / ulp)) * ulp
           in if 2 powi (emax + 1) \<le> r then PInf (q < 0)
              else PFin (if q < 0 then - r else r))"

definition round64 :: "rat \<Rightarrow> pyfloat" where
  "round64 = round_ieee 53 (- 1022) 1023"

definition round32 :: "rat \<Rightarrow> pyfloat" where
  "round32 = round_ieee 24 (- 126) 127"

text \<open>
  Decoding an IEEE-754 bit pattern with \<open>ebits\<close> exponent bits and \<open>mbits\<close> fraction
  bits: \<^verbatim>\<open>"<f"\<close> is \<open>ieee_dec 8 23\<close>, \<^verbatim>\<open>"<d"\<close> is \<open>ieee_dec 11 52\<close>.
\<close>

definition ieee_dec :: "nat \<Rightarrow> nat \<Rightarrow> int \<Rightarrow> pyfloat" where
  "ieee_dec ebits mbits w =
     (let s = (w div 2 ^ (ebits + mbits)) mod 2;
          e = (w div 2 ^ mbits) mod 2 ^ ebits;
          m = w mod 2 ^ mbits;
          bias = 2 ^ (ebits - 1) - 1
      in if e = 2 ^ ebits - 1 then (if m = 0 then PInf (s = 1) else PNaN)
         else let mag = (if e = 0 then of_int m * 2 powi (1 - bias - int mbits)
                         else of_int (2 ^ mbits + m) * 2 powi (e - bias - int mbits))
              in PFin (if s = 1 then - mag else mag))"

definition f32_dec :: "byte list \<Rightarrow> pyfloat" where
  "f32_dec bs = ieee_dec 8 23 (le_uint bs)"

definition f64_dec :: "byte list \<Rightarrow> pyfloat" where
  "f64_dec bs = ieee_dec 11 52 (le_uint bs)"

text \<open>An integer as a float; the integers of this program are below \<open>2 ^ 53\<close>.\<close>

definition fint :: "int \<Rightarrow> pyfloat" where
  "fint i = PFin (of_int i)"

fun fadd :: "pyfloat \<Rightarrow> pyfloat \<Rightarrow> pyfloat" where
  "fadd PNaN _ = PNaN"
| "fadd _ PNaN = PNaN"
| "fadd (PInf s) (PInf t) = (if s = t then PInf s else PNaN)"
| "fadd (PInf s) (PFin _) = PInf s"
| "fadd (PFin _) (PInf t) = PInf t"
| "fadd (PFin a) (PFin b) = round64 (a + b)"

fun fmul :: "pyfloat \<Rightarrow> pyfloat \<Rightarrow> pyfloat" where
  "fmul PNaN _ = PNaN"
| "fmul _ PNaN = PNaN"
| "fmul (PInf s) (PInf t) = PInf (s \<noteq> t)"
| "fmul (PInf s) (PFin b) = (if b = 0 then PNaN else PInf (s \<noteq> (b < 0)))"
| "fmul (PFin a) (PInf t) = (if a = 0 then PNaN else PInf ((a < 0) \<noteq> t))"
| "fmul (PFin a) (PFin b) = round64 (a * b)"

text \<open>The comparisons \<^verbatim>\<open><\<close> and \<^verbatim>\<open>==\<close>: false whenever an operand is a NaN.\<close>

fun flt :: "pyfloat \<Rightarrow> pyfloat \<Rightarrow> bool" where
  "flt PNaN _ = False"
| "flt _ PNaN = False"
| "flt (PInf s) (PInf t) = (s \<and> \<not> t)"
| "flt (PInf s) (PFin _) = s"
| "flt (PFin _) (PInf t) = (\<not> t)"
| "flt (PFin a) (PFin b) = (a < b)"

fun feq :: "pyfloat \<Rightarrow> pyfloat \<Rightarrow> bool" where
  "feq PNaN _ = False"
| "feq _ PNaN = False"
| "feq a b = (a = b)"

text \<open>\<^verbatim>\<open>min(a, b)\<close> keeps its first argument unless the second is smaller.\<close>

definition fmin :: "pyfloat \<Rightarrow> pyfloat \<Rightarrow> pyfloat" where
  "fmin a b = (if flt b a then b else a)"

text \<open>\<^verbatim>\<open>int(x)\<close> truncates towards zero and raises on an infinity or a NaN.\<close>

fun ftrunc :: "pyfloat \<Rightarrow> pyerror + int" where
  "ftrunc (PFin a) = Inr (if 0 \<le> a then \<lfloor>a\<rfloor> else \<lceil>a\<rceil>)"
| "ftrunc (PInf _) = Inl OverflowError"
| "ftrunc PNaN = Inl ValueError"

text \<open>Storing into an \<^verbatim>\<open>array.array('f')\<close> narrows the value to binary32.\<close>

fun to_f32 :: "pyfloat \<Rightarrow> pyfloat" where
  "to_f32 (PFin a) = round32 a"
| "to_f32 x = x"

subsection \<open>\<^verbatim>\<open>dloop\<close> and \<^verbatim>\<open>range\<close>\<close>

text \<open>\<^verbatim>\<open>dloop(xr, yr)\<close> yields the pairs \<open>(x, y)\<close>, \<open>x\<close> inner, \<open>y\<close> outer.\<close>

definition dloop :: "int list \<Rightarrow> int list \<Rightarrow> (int \<times> int) list" where
  "dloop xr yr = concat (map (\<lambda>y. map (\<lambda>x. (x, y)) xr) yr)"

text \<open>\<^verbatim>\<open>range(start, stop, step)\<close>; a zero step raises \<^verbatim>\<open>ValueError\<close>.\<close>

definition py_range :: "int \<Rightarrow> int \<Rightarrow> int \<Rightarrow> pyerror + int list" where
  "py_range start stop step =
     (if step = 0 then Inl ValueError
      else let n = (if 0 < step then (stop - start + step - 1) div step
                    else (start - stop - step - 1) div (- step))
           in Inr (map (\<lambda>k. start + int k * step) [0..<nat n]))"

subsection \<open>\<^verbatim>\<open>decode_RLE\<close>\<close>

text \<open>
  The \<^verbatim>\<open>while size > 2\<close> loop, with the cursor \<open>offset\<close>, the budget \<open>nsize\<close> (the source's \<^verbatim>\<open>size\<close>) and the
  bytes accumulated so far; it returns the cursor after the loop and the bytes.
\<close>

function decode_RLE_loop :: "blob \<Rightarrow> int \<Rightarrow> int \<Rightarrow> byte list \<Rightarrow> pyerror + (int \<times> byte list)" where
  "decode_RLE_loop blob offset nsize result =
     (if 2 < nsize then
        (case unpack_from blob offset 2 of
           Inl e \<Rightarrow> Inl e
         | Inr cb \<Rightarrow>
             let count = to_signed 16 (le_uint cb) in
             if count < 0 then
               (case unpack_from blob (offset + 2) 1 of
                  Inl e \<Rightarrow> Inl e
                | Inr b \<Rightarrow>
                    decode_RLE_loop blob (offset + 2 + 1) (nsize - (2 + 1))
                      (result @ concat (replicate (nat (- count)) b)))
             else
               (case unpack_from blob (offset + 2) count of
                  Inl e \<Rightarrow> Inl e
                | Inr bs \<Rightarrow>
                    decode_RLE_loop blob (offset + 2 + count) (nsize - (2 + count))
                      (result @ bs)))
      else Inr (offset, result))"
  by pat_completeness auto
termination
  by (relation "measure (\<lambda>(blob, offset, nsize, result). nat nsize)") auto

declare decode_RLE_loop.simps [simp del]

text \<open>\<^verbatim>\<open>None\<close> is the failed end marker check.\<close>

definition decode_RLE :: "blob \<Rightarrow> int \<Rightarrow> int \<Rightarrow> pyerror + byte list option" where
  "decode_RLE blob offset nsize =
     (case decode_RLE_loop blob offset nsize [] of
        Inl e \<Rightarrow> Inl e
      | Inr (off, result) \<Rightarrow>
          (case unpack_from blob off 2 of
             Inl e \<Rightarrow> Inl e
           | Inr sb \<Rightarrow>
               if to_signed 16 (le_uint sb) \<noteq> - 32768 then Inr None
               else Inr (Some result)))"

subsection \<open>\<^verbatim>\<open>read_qval\<close>\<close>

text \<open>\<^verbatim>\<open>struct.unpack_from("<" + str(nint) + "I", ...)\<close>: whole little-endian words.\<close>

fun words32 :: "byte list \<Rightarrow> int list" where
  "words32 (a # b # c # d # rest) = le_uint [a, b, c, d] # words32 rest"
| "words32 _ = []"

text \<open>The loop that reassembles the stored bytes of the last, partial word.\<close>

definition v8_of :: "int \<Rightarrow> byte list \<Rightarrow> int" where
  "v8_of extra_bytes values8 =
     foldl (\<lambda>v8 i. v8 OR push_bit (8 * (i + 4 - nat extra_bytes)) (uint (values8 ! i)))
       0 [0..<nat extra_bytes]"

text \<open>Storing into an \<^verbatim>\<open>array.array("I")\<close> raises unless the value is a 32-bit unsigned.\<close>

definition store_I :: "int \<Rightarrow> pyerror + int" where
  "store_I x = (if 0 \<le> x \<and> x < 2 ^ 32 then Inr x else Inl OverflowError)"

text \<open>
  The \<^verbatim>\<open>for dst in range(count)\<close> loop: \<open>v\<close> is the current word, \<open>src\<close> the words
  not yet fetched, the last argument the number of values still to produce.
  A shift by a negative count raises \<^verbatim>\<open>ValueError\<close>, \<^verbatim>\<open>next\<close> on the exhausted iterator
  raises \<^verbatim>\<open>StopIteration\<close>.
\<close>

fun qval_loop :: "int \<Rightarrow> int \<Rightarrow> int \<Rightarrow> int list \<Rightarrow> nat \<Rightarrow> pyerror + int list" where
  "qval_loop nbits bits_left v src 0 = Inr []"
| "qval_loop nbits bits_left v src (Suc k) =
     (let msk = push_bit (nat nbits) 1 - 1 in
      if nbits \<le> bits_left then
        (case store_I (msk AND drop_bit (nat (bits_left - nbits)) v) of
           Inl e \<Rightarrow> Inl e
         | Inr x \<Rightarrow>
             (case qval_loop nbits (bits_left - nbits) v src k of
                Inl e \<Rightarrow> Inl e
              | Inr xs \<Rightarrow> Inr (x # xs)))
      else
        (let vtmp = msk AND push_bit (nat (nbits - bits_left)) v in
         case src of
           [] \<Rightarrow> Inl StopIteration
         | v' # src' \<Rightarrow>
             let bits_left' = bits_left + 32 - nbits in
             if bits_left' < 0 then Inl ValueError
             else
               (case store_I (vtmp + drop_bit (nat bits_left') v') of
                  Inl e \<Rightarrow> Inl e
                | Inr x \<Rightarrow>
                    (case qval_loop nbits bits_left' v' src' k of
                       Inl e \<Rightarrow> Inl e
                     | Inr xs \<Rightarrow> Inr (x # xs)))))"

text \<open>
  The element count that follows the header byte, read as \<^verbatim>\<open>"<I"\<close>, \<^verbatim>\<open>"<H"\<close> or
  \<^verbatim>\<open>"B"\<close> according to the two top bits \<open>bc\<close> of the header byte. Indexing the
  three-element tuples with \<open>bc = 3\<close> raises \<^verbatim>\<open>IndexError\<close>.
\<close>

definition read_count :: "int \<Rightarrow> blob \<Rightarrow> int \<Rightarrow> pyerror + (int \<times> int)" where
  "read_count bc blob offset =
     (if 3 \<le> bc then Inl IndexError
      else
        let csz = (if bc = 0 then 4 else if bc = 1 then 2 else 1) in
        (case unpack_from blob offset csz of
           Inl e \<Rightarrow> Inl e
         | Inr cb \<Rightarrow> Inr (le_uint cb, offset + csz)))"

text \<open>
  The packed words \<^verbatim>\<open>values32\<close>: \<open>nbytes div 4\<close> whole words and, if bytes are left
  over, the partial last word rebuilt from them.
\<close>

definition read_values32 :: "blob \<Rightarrow> int \<Rightarrow> int \<Rightarrow> pyerror + (int list \<times> int)" where
  "read_values32 blob offset nbytes =
     (let nint = nbytes div 4 in
      case unpack_from blob offset (nint * 4) of
        Inl e \<Rightarrow> Inl e
      | Inr wb \<Rightarrow>
          let values32 = words32 wb;
              offset1 = offset + nint * 4;
              extra_bytes = nbytes - nint * 4
          in if 0 \<noteq> extra_bytes then
               (case unpack_from blob offset1 extra_bytes of
                  Inl e \<Rightarrow> Inl e
                | Inr values8 \<Rightarrow>
                    Inr (values32 @ [v8_of extra_bytes values8], offset1 + extra_bytes))
             else Inr (values32, offset1))"

text \<open>
  Decoding the integer array: \<^verbatim>\<open>v = next(src)\<close> before the loop raises
  \<^verbatim>\<open>StopIteration\<close> when there is no word at all.
\<close>

definition unpack_values :: "int \<Rightarrow> int \<Rightarrow> int list \<Rightarrow> pyerror + int list" where
  "unpack_values nbits count values32 =
     (case values32 of
        [] \<Rightarrow> Inl StopIteration
      | v # src \<Rightarrow> qval_loop nbits 32 v src (nat count))"

text \<open>
  \<^verbatim>\<open>read_qval(blob, offset)\<close> returns the values (\<^verbatim>\<open>None\<close> when the header byte says
  zero bits) and the new offset.
\<close>

definition read_qval :: "blob \<Rightarrow> int \<Rightarrow> pyerror + (int list option \<times> int)" where
  "read_qval blob offset =
     (case unpack_from blob offset 1 of
        Inl e \<Rightarrow> Inl e
      | Inr hb \<Rightarrow>
          let nbits0 = le_uint hb;
              bc = drop_bit 6 nbits0;
              nbits = nbits0 AND 63
          in if nbits = 0 then Inr (None, offset + 1)
             else
               (case read_count bc blob (offset + 1) of
                  Inl e \<Rightarrow> Inl e
                | Inr (count, offset2) \<Rightarrow>
                    (case read_values32 blob offset2 ((count * nbits + 7) div 8) of
                       Inl e \<Rightarrow> Inl e
                     | Inr (values32, offset3) \<Rightarrow>
                         (case unpack_values nbits count values32 of
                            Inl e \<Rightarrow> Inl e
                          | Inr values \<Rightarrow> Inr (Some values, offset3)))))"

subsection \<open>The class \<^verbatim>\<open>bitmask\<close>\<close>

record bitmask =
  bm_w :: int
  bm_h :: int
  bm_data :: "byte list"

text \<open>
  The constructor computes \<^verbatim>\<open>sz = (w * h + 7) / 8\<close> and, when no \<^verbatim>\<open>data\<close> is given,
  builds \<^verbatim>\<open>array.array('B', (val,) * sz)\<close>. Under Python 2 the division of two
  integers is the floor division and the array holds \<open>sz\<close> copies of \<open>val\<close>, which must
  be a byte. Under Python 3 \<open>sz\<close> is a float and multiplying a tuple by it raises
  \<^verbatim>\<open>TypeError\<close>. With \<^verbatim>\<open>data\<close> given, \<open>sz\<close> is not used.
\<close>

datatype pyver = Py2 | Py3

definition bitmask_init :: "pyver \<Rightarrow> int \<Rightarrow> int \<Rightarrow> int \<Rightarrow> byte list option \<Rightarrow> pyerror + bitmask" where
  "bitmask_init ver w h val data =
     (case data of
        Some d \<Rightarrow> Inr \<lparr>bm_w = w, bm_h = h, bm_data = d\<rparr>
      | None \<Rightarrow>
          (case ver of
             Py3 \<Rightarrow> Inl TypeError
           | Py2 \<Rightarrow>
               let sz = (w * h + 7) div 8 in
               if 0 < sz \<and> (val < 0 \<or> 255 < val) then Inl OverflowError
               else Inr \<lparr>bm_w = w, bm_h = h,
                          bm_data = replicate (nat sz) (word_of_int val)\<rparr>))"

definition bitmask_at :: "bitmask \<Rightarrow> int \<Rightarrow> int \<Rightarrow> pyerror + bool" where
  "bitmask_at m x y =
     (let l = y * bm_w m + x in
      case py_index (length (bm_data m)) (l div 8) of
        None \<Rightarrow> Inl IndexError
      | Some i \<Rightarrow> Inr (0 \<noteq> (uint (bm_data m ! i) AND drop_bit (nat (l mod 8)) 128)))"

subsection \<open>\<^verbatim>\<open>read_block\<close>\<close>

text \<open>Assigning \<^verbatim>\<open>data[i] = v\<close> in the \<^verbatim>\<open>array.array('f')\<close> of samples.\<close>

definition store_f :: "pyfloat list \<Rightarrow> int \<Rightarrow> pyfloat \<Rightarrow> pyerror + pyfloat list" where
  "store_f data i v =
     (case py_index (length data) i of
        None \<Rightarrow> Inl IndexError
      | Some k \<Rightarrow> Inr (data[k := to_f32 v]))"

text \<open>Mode 0: the samples of the valid pixels are stored as such.\<close>

fun raw_loop :: "(int \<times> int) list \<Rightarrow> bitmask \<Rightarrow> blob \<Rightarrow> pyfloat list \<Rightarrow> int \<Rightarrow> pyerror + (pyfloat list \<times> int)" where
  "raw_loop [] msk blob data offset = Inr (data, offset)"
| "raw_loop ((x, y) # ps) msk blob data offset =
     (case bitmask_at msk x y of
        Inl e \<Rightarrow> Inl e
      | Inr b \<Rightarrow>
          if b then
            (case unpack_from blob offset 4 of
               Inl e \<Rightarrow> Inl e
             | Inr fb \<Rightarrow>
                 (case store_f data (y * bm_w msk + x) (f32_dec fb) of
                    Inl e \<Rightarrow> Inl e
                  | Inr data' \<Rightarrow> raw_loop ps msk blob data' (offset + 4)))
          else raw_loop ps msk blob data offset)"

text \<open>Constant encoding: all \<open>mval\<close>, the mask is ignored.\<close>

fun const_loop :: "(int \<times> int) list \<Rightarrow> bitmask \<Rightarrow> pyfloat \<Rightarrow> pyfloat list \<Rightarrow> pyerror + pyfloat list" where
  "const_loop [] msk mval data = Inr data"
| "const_loop ((x, y) # ps) msk mval data =
     (case store_f data (y * bm_w msk + x) mval of
        Inl e \<Rightarrow> Inl e
      | Inr data' \<Rightarrow> const_loop ps msk mval data')"

text \<open>Unpacked from integers, based on the mask; \<open>src\<close> is the iterator over them.\<close>

fun quant_loop :: "(int \<times> int) list \<Rightarrow> bitmask \<Rightarrow> pyfloat \<Rightarrow> pyfloat \<Rightarrow> pyfloat \<Rightarrow> int list \<Rightarrow> pyfloat list \<Rightarrow> pyerror + pyfloat list" where
  "quant_loop [] msk mval Q max_val src data = Inr data"
| "quant_loop ((x, y) # ps) msk mval Q max_val src data =
     (case bitmask_at msk x y of
        Inl e \<Rightarrow> Inl e
      | Inr b \<Rightarrow>
          if b then
            (case src of
               [] \<Rightarrow> Inl StopIteration
             | k # src' \<Rightarrow>
                 (case store_f data (y * bm_w msk + x)
                         (fmin (fadd mval (fmul Q (fint k))) max_val) of
                    Inl e \<Rightarrow> Inl e
                  | Inr data' \<Rightarrow> quant_loop ps msk mval Q max_val src' data'))
          else quant_loop ps msk mval Q max_val src data)"

text \<open>
  The minimum of a block, read as \<^verbatim>\<open>"<f"\<close>, \<^verbatim>\<open>"<h"\<close> or \<^verbatim>\<open>"b"\<close> according to the two
  top bits \<open>mf\<close> of the flag byte; \<open>mf = 3\<close> indexes past the tuple of formats.
\<close>

definition read_mval :: "int \<Rightarrow> blob \<Rightarrow> int \<Rightarrow> pyerror + (pyfloat \<times> int)" where
  "read_mval mf blob offset =
     (if 3 \<le> mf then Inl IndexError
      else if mf = 0 then
        (case unpack_from blob offset 4 of
           Inl e \<Rightarrow> Inl e
         | Inr bs \<Rightarrow> Inr (f32_dec bs, offset + 4))
      else if mf = 1 then
        (case unpack_from blob offset 2 of
           Inl e \<Rightarrow> Inl e
         | Inr bs \<Rightarrow> Inr (fint (to_signed 16 (le_uint bs)), offset + 2))
      else
        (case unpack_from blob offset 1 of
           Inl e \<Rightarrow> Inl e
         | Inr bs \<Rightarrow> Inr (fint (to_signed 8 (le_uint bs)), offset + 1)))"

text \<open>
  \<^verbatim>\<open>read_block(data, rx, ry, mask, Q, max_val, blob, offset)\<close> returns the updated
  sample array and the end offset.
\<close>

definition read_block :: "pyfloat list \<Rightarrow> int list \<Rightarrow> int list \<Rightarrow> bitmask \<Rightarrow> pyfloat \<Rightarrow> pyfloat \<Rightarrow> blob \<Rightarrow> int \<Rightarrow> pyerror + (pyfloat list \<times> int)" where
  "read_block data rx ry msk Q max_val blob offset =
     (case unpack_from blob offset 1 of
        Inl e \<Rightarrow> Inl e
      | Inr fb \<Rightarrow>
          let flags0 = le_uint fb;
              offset1 = offset + 1;
              mf = drop_bit 6 flags0;
              flags = flags0 AND 63
          in if \<not> flags < 4 then Inl AssertionError
             else if flags = 0 then raw_loop (dloop rx ry) msk blob data offset1
             else
               (case (if 0 \<noteq> (flags AND 1) then read_mval mf blob offset1
                      else Inr (PFin 0, offset1)) of
                  Inl e \<Rightarrow> Inl e
                | Inr (mval, offset2) \<Rightarrow>
                    if 0 \<noteq> (flags AND 2) then
                      (case const_loop (dloop rx ry) msk mval data of
                         Inl e \<Rightarrow> Inl e
                       | Inr data' \<Rightarrow> Inr (data', offset2))
                    else
                      (case read_qval blob offset2 of
                         Inl e \<Rightarrow> Inl e
                       | Inr (ival, offset3) \<Rightarrow>
                           (case ival of
                              None \<Rightarrow> Inl TypeError
                            | Some src \<Rightarrow>
                                (case quant_loop (dloop rx ry) msk mval Q max_val src data of
                                   Inl e \<Rightarrow> Inl e
                                 | Inr data' \<Rightarrow> Inr (data', offset3))))))"

subsection \<open>The class \<^verbatim>\<open>lerc\<close>\<close>

text \<open>
  The attributes of a \<^verbatim>\<open>lerc\<close> object; \<open>None\<close> is an attribute that has not been set.
  \<^verbatim>\<open>self.h\<close>, \<^verbatim>\<open>self.w\<close>, \<^verbatim>\<open>self.u\<close>, \<^verbatim>\<open>self.valid\<close> and \<^verbatim>\<open>self.mask\<close> carry the prefix
  \<open>lerc_\<close>.
\<close>

record session =
  lerc_valid :: bool
  lerc_h :: "int option"
  lerc_w :: "int option"
  lerc_u :: "pyfloat option"
  m_nbY :: "int option"
  m_nbX :: "int option"
  m_nB :: "int option"
  m_maxVal :: "pyfloat option"
  v_nbY :: "int option"
  v_nbX :: "int option"
  v_nB :: "int option"
  v_maxVal :: "pyfloat option"
  lerc_mask :: "bitmask option"

definition magic :: "byte list" where
  "magic = [67, 110, 116, 90, 73, 109, 97, 103, 101, 32]"

definition new_session :: session where
  "new_session =
     \<lparr>lerc_valid = False, lerc_h = None, lerc_w = None, lerc_u = None,
      m_nbY = None, m_nbX = None, m_nB = None, m_maxVal = None,
      v_nbY = None, v_nbX = None, v_nB = None, v_maxVal = None,
      lerc_mask = None\<rparr>"

text \<open>The four fields \<^verbatim>\<open>"<IIIf"\<close> of a block-grid descriptor.\<close>

definition unpack_IIIf :: "byte list \<Rightarrow> int \<times> int \<times> int \<times> pyfloat" where
  "unpack_IIIf bs =
     (le_uint (take 4 bs), le_uint (take 4 (drop 4 bs)), le_uint (take 4 (drop 8 bs)),
      f32_dec (take 4 (drop 12 bs)))"

text \<open>
  \<^verbatim>\<open>lerc.__init__\<close> reads the header only. Every exception inside the \<^verbatim>\<open>try\<close> block
  ends in the handler, which clears \<^verbatim>\<open>self.valid\<close> and keeps the attributes assigned
  so far.
\<close>

definition lerc_init :: "blob \<Rightarrow> session" where
  "lerc_init blob =
     (let s0 = new_session\<lparr>lerc_valid := (take 10 blob = magic)\<rparr> in
      if \<not> lerc_valid s0 then s0\<lparr>lerc_valid := False\<rparr>
      else
        (case unpack_from blob 10 24 of
           Inl e \<Rightarrow> s0\<lparr>lerc_valid := False\<rparr>
         | Inr hb \<Rightarrow>
             let fileVersion = le_uint (take 4 hb);
                 imageType = le_uint (take 4 (drop 4 hb));
                 s1 = s0\<lparr>lerc_h := Some (le_uint (take 4 (drop 8 hb))),
                         lerc_w := Some (le_uint (take 4 (drop 12 hb))),
                         lerc_u := Some (fmul (f64_dec (take 8 (drop 16 hb))) (fint 2))\<rparr>
             in if \<not> (fileVersion = 11 \<and> imageType = 8) then s1\<lparr>lerc_valid := False\<rparr>
                else
                  (case unpack_from blob 34 16 of
                     Inl e \<Rightarrow> s1\<lparr>lerc_valid := False\<rparr>
                   | Inr d1 \<Rightarrow>
                       (case unpack_IIIf d1 of (nbY, nbX, nB, val) \<Rightarrow>
                          if 66 + nB \<le> int (length blob) then
                            if \<not> (0 = (nbX OR nbY) \<and> (feq (PFin 1) val \<or> feq (PFin 0) val))
                            then s1\<lparr>lerc_valid := False\<rparr>
                            else
                              let s2 = s1\<lparr>m_nbY := Some nbY, m_nbX := Some nbX,
                                           m_nB := Some nB, m_maxVal := Some val\<rparr>
                              in (case unpack_from blob (50 + nB) 16 of
                                    Inl e \<Rightarrow> s2\<lparr>lerc_valid := False\<rparr>
                                  | Inr d2 \<Rightarrow>
                                      (case unpack_IIIf d2 of (nbY', nbX', nB', val') \<Rightarrow>
                                         s2\<lparr>v_nbY := Some nbY', v_nbX := Some nbX',
                                            v_nB := Some nB', v_maxVal := Some val'\<rparr>))
                          else
                            s1\<lparr>v_nbY := Some nbY, v_nbX := Some nbX,
                               v_nB := Some nB, v_maxVal := Some val\<rparr>))))"

text \<open>Reading an attribute that has not been set raises \<^verbatim>\<open>AttributeError\<close>.\<close>

definition attr :: "'a option \<Rightarrow> pyerror + 'a" where
  "attr a = (case a of None \<Rightarrow> Inl AttributeError | Some x \<Rightarrow> Inr x)"

definition decode_mask :: "pyver \<Rightarrow> session \<Rightarrow> blob \<Rightarrow> pyerror + bitmask" where
  "decode_mask ver s blob =
     (case attr (m_nB s) of
        Inl e \<Rightarrow> Inl e
      | Inr nB \<Rightarrow>
          (case attr (lerc_w s) of
             Inl e \<Rightarrow> Inl e
           | Inr w \<Rightarrow>
               (case attr (lerc_h s) of
                  Inl e \<Rightarrow> Inl e
                | Inr h \<Rightarrow>
                    if 0 = nB then
                      (case attr (m_maxVal s) of
                         Inl e \<Rightarrow> Inl e
                       | Inr mv \<Rightarrow>
                           (case ftrunc (fmul mv (fint 255)) of
                              Inl e \<Rightarrow> Inl e
                            | Inr val \<Rightarrow> bitmask_init ver w h val None))
                    else
                      (case decode_RLE blob 50 nB of
                         Inl e \<Rightarrow> Inl e
                       | Inr data \<Rightarrow> bitmask_init ver w h 255 data))))"

text \<open>The loop of \<^verbatim>\<open>read_tiles\<close> over the block origins.\<close>

fun tiles_loop :: "(int \<times> int) list \<Rightarrow> session \<Rightarrow> int \<Rightarrow> int \<Rightarrow> int \<Rightarrow> int \<Rightarrow> blob \<Rightarrow> pyfloat list \<Rightarrow> int \<Rightarrow> pyerror + pyfloat list" where
  "tiles_loop [] s w h bw bh blob result offset = Inr result"
| "tiles_loop ((x, y) # ps) s w h bw bh blob result offset =
     (case py_range x (x + min bw (w - x)) 1 of
        Inl e \<Rightarrow> Inl e
      | Inr rx \<Rightarrow>
          (case py_range y (y + min bh (h - y)) 1 of
             Inl e \<Rightarrow> Inl e
           | Inr ry \<Rightarrow>
               (case attr (lerc_mask s) of
                  Inl e \<Rightarrow> Inl e
                | Inr msk \<Rightarrow>
                    (case attr (lerc_u s) of
                       Inl e \<Rightarrow> Inl e
                     | Inr u \<Rightarrow>
                         (case attr (v_maxVal s) of
                            Inl e \<Rightarrow> Inl e
                          | Inr mv \<Rightarrow>
                              (case read_block result rx ry msk u mv blob offset of
                                 Inl e \<Rightarrow> Inl e
                               | Inr (result', offset') \<Rightarrow>
                                   tiles_loop ps s w h bw bh blob result' offset'))))))"

definition read_tiles :: "session \<Rightarrow> blob \<Rightarrow> pyerror + pyfloat list" where
  "read_tiles s blob =
     (case attr (lerc_h s) of
        Inl e \<Rightarrow> Inl e
      | Inr h \<Rightarrow>
      (case attr (v_nbY s) of
        Inl e \<Rightarrow> Inl e
      | Inr nbY \<Rightarrow>
      if nbY = 0 then Inl ZeroDivisionError else
      (case attr (lerc_w s) of
        Inl e \<Rightarrow> Inl e
      | Inr w \<Rightarrow>
      (case attr (v_nbX s) of
        Inl e \<Rightarrow> Inl e
      | Inr nbX \<Rightarrow>
      if nbX = 0 then Inl ZeroDivisionError else
      (case attr (m_nB s) of
        Inl e \<Rightarrow> Inl e
      | Inr nB \<Rightarrow>
          let bh = h div nbY;
              bw = w div nbX;
              offset = 66 + nB;
              result = replicate (nat w * nat h) (PFin 0)
          in (case py_range 0 w bw of
                Inl e \<Rightarrow> Inl e
              | Inr xr \<Rightarrow>
                  (case py_range 0 h bh of
                     Inl e \<Rightarrow> Inl e
                   | Inr yr \<Rightarrow>
                       tiles_loop (dloop xr yr) s w h bw bh blob result offset)))))))"

text \<open>
  \<^verbatim>\<open>lerc.decode\<close>: the object after the call and what the call returns or raises.
  \<open>Inr None\<close> is the tuple \<^verbatim>\<open>(None,) * 3\<close> of an invalid object.
\<close>

definition decode :: "pyver \<Rightarrow> session \<Rightarrow> blob \<Rightarrow> session \<times> (pyerror + pyfloat list option)" where
  "decode ver s blob =
     (if \<not> lerc_valid s then (s, Inr None)
      else
        (case (if lerc_mask s = None then
                 (case decode_mask ver s blob of
                    Inl e \<Rightarrow> Inl e
                  | Inr m \<Rightarrow> Inr (s\<lparr>lerc_mask := Some m\<rparr>))
               else Inr s) of
           Inl e \<Rightarrow> (s, Inl e)
         | Inr s' \<Rightarrow>
             (case read_tiles s' blob of
                Inl e \<Rightarrow> (s', Inl e)
              | Inr result \<Rightarrow> (s', Inr (Some result)))))"

subsection \<open>The run-length format, as the specification describes it\<close>

text \<open>
  This relation is written from the words of the specification, not from the source.
  A state is the source cursor, the remaining byte budget and the bytes produced so
  far. One iteration reads a signed 16-bit little-endian count at the cursor. A
  negative count appends the next byte \<open>- count\<close> times and moves the cursor over that
  one byte; a non-negative count appends the next \<open>count\<close> bytes and moves the cursor
  over them. The iteration takes \<open>2 + 1\<close> or \<open>2 + count\<close> from the budget.
\<close>

inductive rle_step :: "blob \<Rightarrow> int \<times> int \<times> byte list \<Rightarrow> int \<times> int \<times> byte list \<Rightarrow> bool"
  for blob :: blob where
  repeated:
    "3 \<le> budget \<Longrightarrow> unpack_from blob cursor 2 = Inr cb \<Longrightarrow>
     to_signed 16 (le_uint cb) = count \<Longrightarrow> count < 0 \<Longrightarrow>
     unpack_from blob (cursor + 2) 1 = Inr [b] \<Longrightarrow>
     rle_step blob (cursor, budget, out)
       (cursor + 2 + 1, budget - (2 + 1), out @ replicate (nat (- count)) b)"
| verbatim:
    "3 \<le> budget \<Longrightarrow> unpack_from blob cursor 2 = Inr cb \<Longrightarrow>
     to_signed 16 (le_uint cb) = count \<Longrightarrow> 0 \<le> count \<Longrightarrow>
     unpack_from blob (cursor + 2) count = Inr bs \<Longrightarrow>
     rle_step blob (cursor, budget, out)
       (cursor + 2 + count, budget - (2 + count), out @ bs)"

text \<open>The iterations go on until fewer than three bytes of budget remain.\<close>

inductive rle_run :: "blob \<Rightarrow> int \<times> int \<times> byte list \<Rightarrow> int \<times> int \<times> byte list \<Rightarrow> bool"
  for blob :: blob where
  stop: "budget < 3 \<Longrightarrow> rle_run blob (cursor, budget, out) (cursor, budget, out)"
| step: "rle_step blob st st' \<Longrightarrow> rle_run blob st' st'' \<Longrightarrow> rle_run blob st st''"

text \<open>
  The outcome: the signed 16-bit value at the cursor after the last iteration is
  compared with the end marker \<open>- 32768\<close>; the bytes produced are the result when it
  matches, and there is no result (\<open>None\<close>) when it does not.
\<close>

definition rle_spec :: "blob \<Rightarrow> int \<Rightarrow> int \<Rightarrow> byte list option \<Rightarrow> bool" where
  "rle_spec blob offset byteCount r =
     (\<exists>cursor budget out sb.
        rle_run blob (offset, byteCount, []) (cursor, budget, out) \<and>
        unpack_from blob cursor 2 = Inr sb \<and>
        r = (if to_signed 16 (le_uint sb) = - 32768 then Some out else None))"

text \<open>
  A run-length stream of nine bytes: the byte 7 three times, the two bytes 8 and 9
  verbatim, and the end marker.
\<close>

definition rle_example :: blob where
  "rle_example = [0xFD, 0xFF, 7, 2, 0, 8, 9, 0, 0x80]"

subsection \<open>A reference packer for the bit-packed integers\<close>

text \<open>
  This packer is written from the format as the specification describes it, not from
  the source, which has no encoder. The values, \<open>nbits\<close> bits each, are laid out from
  the most significant bit of each 32-bit word downwards. \<open>pack_loop\<close> keeps the word
  being filled and the number of its bits that are still free; a value that does not
  fit puts its high bits into the current word and its low bits at the top of the next.
\<close>

fun pack_loop :: "nat \<Rightarrow> nat \<Rightarrow> int \<Rightarrow> int list \<Rightarrow> int list" where
  "pack_loop nbits bits_left acc [] = [acc]"
| "pack_loop nbits bits_left acc (x # xs) =
     (if nbits \<le> bits_left then
        pack_loop nbits (bits_left - nbits) (acc OR push_bit (bits_left - nbits) x) xs
      else
        (acc OR drop_bit (nbits - bits_left) x)
          # pack_loop nbits (bits_left + 32 - nbits)
              (take_bit 32 (push_bit (bits_left + 32 - nbits) x)) xs)"

definition pack_words :: "nat \<Rightarrow> int list \<Rightarrow> int list" where
  "pack_words nbits xs = (if xs = [] then [] else pack_loop nbits 32 0 xs)"

text \<open>The \<open>k\<close> little-endian bytes of an unsigned value.\<close>

fun le_bytes :: "nat \<Rightarrow> int \<Rightarrow> byte list" where
  "le_bytes 0 v = []"
| "le_bytes (Suc k) v = word_of_int v # le_bytes k (v div 256)"

text \<open>
  The packed block: the header byte (the selector of the count's width in the two top
  bits, \<open>nbits\<close> in the low six), the count in the narrowest of the three widths, the
  whole words in little-endian order and, of the last word, only the bytes that hold
  packed bits: \<open>(count * nbits + 7) div 8\<close> bytes in all, the unused low-order bytes of
  the last word left out.
\<close>

definition pack_qval :: "nat \<Rightarrow> int list \<Rightarrow> blob" where
  "pack_qval nbits xs =
     (let count = int (length xs);
          bc = (if count < 256 then 2 else if count < 65536 then 1 else 0);
          csz = (if bc = 0 then 4 else if bc = 1 then 2 else 1);
          nbytes = (length xs * nbits + 7) div 8;
          extra_bytes = nbytes mod 4;
          ws = pack_words nbits xs
      in [word_of_int (bc * 64 + int nbits)] @ le_bytes csz count
         @ concat (map (le_bytes 4) (butlast ws))
         @ (if ws = [] then []
            else drop (if extra_bytes = 0 then 0 else 4 - extra_bytes) (le_bytes 4 (last ws))))"

subsection \<open>Example blobs\<close>

text \<open>
  The 34 bytes before the first descriptor: the token \<^verbatim>\<open>CntZImage \<close>, version 11,
  type 8, height 2, width 2 and the half step 0.5.
\<close>

definition hdr_bytes :: "byte list" where
  "hdr_bytes = magic @ [11,0,0,0, 8,0,0,0, 2,0,0,0, 2,0,0,0, 0,0,0,0,0,0,0xE0,0x3F]"

text \<open>
  A blob with a mask: descriptor \<open>(0, 0, 5, 1.0)\<close>, five bytes of run-length coded mask
  (one literal byte \<open>0xF0\<close>, then the end marker), the value descriptor
  \<open>(1, 1, 2, 100.0)\<close> and one block with flag byte \<open>0x83\<close> and the minimum 5.
\<close>

definition masked_blob :: blob where
  "masked_blob = hdr_bytes @ [0,0,0,0, 0,0,0,0, 5,0,0,0, 0,0,0x80,0x3F]
      @ [1,0,0xF0,0,0x80]
      @ [1,0,0,0, 1,0,0,0, 2,0,0,0, 0,0,0xC8,0x42]
      @ [0x83, 5]"

text \<open>The same blob with one block row in the first descriptor.\<close>

definition tiled_first_blob :: blob where
  "tiled_first_blob = hdr_bytes @ [1,0,0,0, 0,0,0,0, 5,0,0,0, 0,0,0x80,0x3F]
      @ [1,0,0xF0,0,0x80]
      @ [1,0,0,0, 1,0,0,0, 2,0,0,0, 0,0,0xC8,0x42]
      @ [0x83, 5]"

text \<open>
  Three values of three bits, 5, 3 and 1: the header byte \<open>0x83\<close> (count in one byte,
  three bits per value), the count, and the two stored bytes of the only word
  \<open>0xAC800000\<close>.
\<close>

definition qval_example :: blob where
  "qval_example = [0x83, 3, 0x80, 0xAC]"

text \<open>
  Two blocks of one pixel and two masks for them. \<open>quant_blob\<close> has the flag byte
  \<open>0x81\<close> (low six bits 1, minimum stored as \<^verbatim>\<open>"b"\<close>), the minimum 5 and one packed
  one-bit value 1. \<open>const_blob\<close> has the flag byte \<open>0x83\<close> (low six bits 3) and the
  minimum 5.
\<close>

definition quant_blob :: blob where
  "quant_blob = [0x81, 5, 0x81, 1, 0x80]"

definition const_blob :: blob where
  "const_blob = [0x83, 5]"

definition mask_set :: bitmask where
  "mask_set = \<lparr>bm_w = 1, bm_h = 1, bm_data = [0x80]\<rparr>"

definition mask_clear :: bitmask where
  "mask_clear = \<lparr>bm_w = 1, bm_h = 1, bm_data = [0]\<rparr>"

text \<open>
  \<open>uniform_blob\<close> is \<open>masked_blob\<close> with a mask descriptor of no bytes, \<open>(0, 0, 0, 1.0)\<close>;
  \<open>bad_sentinel_blob\<close> is \<open>masked_blob\<close> with the end marker of the mask region
  overwritten by zeros. \<open>masked_session\<close> is the object that \<^verbatim>\<open>__init__\<close> builds from
  \<open>masked_blob\<close> and from \<open>bad_sentinel_blob\<close>, \<open>uniform_session\<close> the one it builds from
  \<open>uniform_blob\<close>.
\<close>

definition uniform_blob :: blob where
  "uniform_blob = hdr_bytes @ [0,0,0,0, 0,0,0,0, 0,0,0,0, 0,0,0x80,0x3F]
      @ [1,0,0,0, 1,0,0,0, 2,0,0,0, 0,0,0xC8,0x42]
      @ [0x83, 5]"

definition bad_sentinel_blob :: blob where
  "bad_sentinel_blob = hdr_bytes @ [0,0,0,0, 0,0,0,0, 5,0,0,0, 0,0,0x80,0x3F]
      @ [1,0,0xF0,0,0]
      @ [1,0,0,0, 1,0,0,0, 2,0,0,0, 0,0,0xC8,0x42]
      @ [0x83, 5]"

definition masked_session :: session where
  "masked_session =
     \<lparr>lerc_valid = True, lerc_h = Some 2, lerc_w = Some 2, lerc_u = Some (PFin 1),
      m_nbY = Some 0, m_nbX = Some 0, m_nB = Some 5, m_maxVal = Some (PFin 1),
      v_nbY = Some 1, v_nbX = Some 1, v_nB = Some 2, v_maxVal = Some (PFin 100),
      lerc_mask = None\<rparr>"

definition uniform_session :: session where
  "uniform_session = masked_session\<lparr>m_nB := Some 0\<rparr>"



section \<open>Properties\<close>

subsection \<open>Auxiliary facts\<close>

lemma le_uint_nonneg: "0 \<le> le_uint bs"
  by (induction bs) auto

lemma unpack_IIIf_nonneg:
  "unpack_IIIf d = (nbY, nbX, nB, val) \<Longrightarrow> 0 \<le> nbY \<and> 0 \<le> nbX \<and> 0 \<le> nB"
  by (auto simp: unpack_IIIf_def le_uint_nonneg)

lemma unpack_from_inside:
  "0 \<le> off \<Longrightarrow> off + n \<le> int (length blob) \<Longrightarrow>
   unpack_from blob off n = Inr (take (nat n) (drop (nat off) blob))"
  by (simp add: unpack_from_def)

lemma feq_const: "feq (PFin c) val \<longleftrightarrow> val = PFin c"
  by (cases val) auto

lemma masked_blob_descriptor:
  "unpack_IIIf (take 16 (drop 34 masked_blob)) = (0, 0, 5, PFin 1)"
  by (simp add: masked_blob_def hdr_bytes_def magic_def unpack_IIIf_def f32_dec_def
      ieee_dec_def)

lemma tiled_first_blob_descriptor:
  "unpack_IIIf (take 16 (drop 34 tiled_first_blob)) = (1, 0, 5, PFin 1)"
  by (simp add: tiled_first_blob_def hdr_bytes_def magic_def unpack_IIIf_def f32_dec_def
      ieee_dec_def)

lemma masked_blob_length: "length masked_blob = 73"
  by (simp add: masked_blob_def hdr_bytes_def magic_def)

lemma tiled_first_blob_length: "length tiled_first_blob = 73"
  by (simp add: tiled_first_blob_def hdr_bytes_def magic_def)

lemma round64_one: "round64 1 = PFin 1"
  by (simp add: round64_def round_ieee_def ilog2_def rne_def Let_def bitlen_def)

lemma lerc_init_masked_blob:
  "lerc_init masked_blob =
     \<lparr>lerc_valid = True, lerc_h = Some 2, lerc_w = Some 2, lerc_u = Some (PFin 1),
      m_nbY = Some 0, m_nbX = Some 0, m_nB = Some 5, m_maxVal = Some (PFin 1),
      v_nbY = Some 1, v_nbX = Some 1, v_nB = Some 2, v_maxVal = Some (PFin 100),
      lerc_mask = None\<rparr>"
  by (simp add: lerc_init_def masked_blob_def hdr_bytes_def magic_def unpack_from_def
      new_session_def unpack_IIIf_def f32_dec_def f64_dec_def ieee_dec_def fint_def
      round64_one)

lemma lerc_init_tiled_first_blob:
  "lerc_init tiled_first_blob =
     \<lparr>lerc_valid = False, lerc_h = Some 2, lerc_w = Some 2, lerc_u = Some (PFin 1),
      m_nbY = None, m_nbX = None, m_nB = None, m_maxVal = None,
      v_nbY = None, v_nbX = None, v_nB = None, v_maxVal = None,
      lerc_mask = None\<rparr>"
  by (simp add: lerc_init_def tiled_first_blob_def hdr_bytes_def magic_def unpack_from_def
      new_session_def unpack_IIIf_def f32_dec_def f64_dec_def ieee_dec_def fint_def
      round64_one)

subsection \<open>The header parser and the mask descriptor\<close>

text \<open>
  C1. Let \<open>(nbY, nbX, nB, val)\<close> be the first block-grid descriptor, the sixteen bytes
  at offset 34, and let the blob be long enough to also hold a mask descriptor
  (\<open>66 + nB \<le> len(blob)\<close>). If \<^verbatim>\<open>__init__\<close> sets any of the attributes \<^verbatim>\<open>m_nbY\<close>,
  \<^verbatim>\<open>m_nbX\<close>, \<^verbatim>\<open>m_nB\<close>, \<^verbatim>\<open>m_maxVal\<close>, that is, accepts the first descriptor as the mask
  descriptor, then both block counts are zero and the fill value is 0.0 or 1.0; and
  for a descriptor with a nonzero block-row or block-column count none of them is set.
\<close>

theorem mask_descriptor_accepted_only_if_valid:
  assumes d1: "unpack_IIIf (take 16 (drop 34 blob)) = (nbY, nbX, nB, val)"
    and len: "66 + nB \<le> int (length blob)"
  shows "(m_nbY (lerc_init blob) \<noteq> None \<or> m_nbX (lerc_init blob) \<noteq> None \<or>
          m_nB (lerc_init blob) \<noteq> None \<or> m_maxVal (lerc_init blob) \<noteq> None
          \<longrightarrow> nbY = 0 \<and> nbX = 0 \<and> (val = PFin 0 \<or> val = PFin 1))
       \<and> (nbY \<noteq> 0 \<or> nbX \<noteq> 0
          \<longrightarrow> m_nbY (lerc_init blob) = None \<and> m_nbX (lerc_init blob) = None \<and>
              m_nB (lerc_init blob) = None \<and> m_maxVal (lerc_init blob) = None)"
proof -
  from unpack_IIIf_nonneg [OF d1] have nn: "0 \<le> nbY" "0 \<le> nbX" "0 \<le> nB" by auto
  have u1: "unpack_from blob 34 16 = Inr (take 16 (drop 34 blob))"
    using len nn by (simp add: unpack_from_inside)
  have or0: "0 = (nbX OR nbY) \<longleftrightarrow> nbX = 0 \<and> nbY = 0"
    by (metis or_eq_0_iff)
  show ?thesis
    using d1 len
    by (auto simp: lerc_init_def Let_def u1 or0 feq_const new_session_def
        split: sum.splits)
qed

theorem mask_descriptor_accepted_only_if_valid_witness:
  "(unpack_IIIf (take 16 (drop 34 masked_blob)) = (0, 0, 5, PFin 1)
    \<and> 66 + 5 \<le> int (length masked_blob)
    \<and> m_nbY (lerc_init masked_blob) \<noteq> None
    \<and> (0::int) = 0 \<and> (PFin 1 = PFin 0 \<or> PFin 1 = PFin 1))
  \<and> (unpack_IIIf (take 16 (drop 34 tiled_first_blob)) = (1, 0, 5, PFin 1)
    \<and> 66 + 5 \<le> int (length tiled_first_blob)
    \<and> (1::int) \<noteq> 0
    \<and> m_nbY (lerc_init tiled_first_blob) = None \<and> m_nbX (lerc_init tiled_first_blob) = None
    \<and> m_nB (lerc_init tiled_first_blob) = None \<and> m_maxVal (lerc_init tiled_first_blob) = None)"
proof -
  have l1: "66 + 5 \<le> int (length masked_blob)"
    by (simp add: masked_blob_length)
  have l2: "66 + 5 \<le> int (length tiled_first_blob)"
    by (simp add: tiled_first_blob_length)
  have a: "m_nbY (lerc_init masked_blob) \<noteq> None"
    by (simp add: lerc_init_masked_blob)
  show ?thesis
    using mask_descriptor_accepted_only_if_valid [OF masked_blob_descriptor l1]
      mask_descriptor_accepted_only_if_valid [OF tiled_first_blob_descriptor l2]
      masked_blob_descriptor tiled_first_blob_descriptor l1 l2 a
    by simp
qed

text \<open>
  C2 fails: the blob \<open>tiled_first_blob\<close> is long enough to hold a mask descriptor and
  its first descriptor has one block row, yet \<^verbatim>\<open>__init__\<close> leaves the object invalid and
  sets no value descriptor: the \<^verbatim>\<open>assert\<close> raises and the handler clears \<^verbatim>\<open>self.valid\<close>.
\<close>

theorem failed_mask_validation_counterexample:
  "unpack_IIIf (take 16 (drop 34 tiled_first_blob)) = (1, 0, 5, PFin 1)
   \<and> 66 + 5 \<le> int (length tiled_first_blob)
   \<and> \<not> lerc_valid (lerc_init tiled_first_blob)
   \<and> v_nbY (lerc_init tiled_first_blob) = None \<and> v_nbX (lerc_init tiled_first_blob) = None
   \<and> v_nB (lerc_init tiled_first_blob) = None \<and> v_maxVal (lerc_init tiled_first_blob) = None"
  by (simp add: tiled_first_blob_descriptor tiled_first_blob_length
      lerc_init_tiled_first_blob)

text \<open>
  C2 as amended. For every blob long enough to hold a mask descriptor whose first
  descriptor fails the mask validation (a nonzero block count, or a fill value that is
  neither 0.0 nor 1.0), \<^verbatim>\<open>__init__\<close> marks the object invalid and records neither a
  mask descriptor nor a value descriptor.
\<close>

theorem failed_mask_validation_invalidates:
  assumes d1: "unpack_IIIf (take 16 (drop 34 blob)) = (nbY, nbX, nB, val)"
    and len: "66 + nB \<le> int (length blob)"
    and bad: "nbY \<noteq> 0 \<or> nbX \<noteq> 0 \<or> (val \<noteq> PFin 0 \<and> val \<noteq> PFin 1)"
  shows "\<not> lerc_valid (lerc_init blob)
       \<and> v_nbY (lerc_init blob) = None \<and> v_nbX (lerc_init blob) = None
       \<and> v_nB (lerc_init blob) = None \<and> v_maxVal (lerc_init blob) = None
       \<and> m_nbY (lerc_init blob) = None \<and> m_nbX (lerc_init blob) = None
       \<and> m_nB (lerc_init blob) = None \<and> m_maxVal (lerc_init blob) = None"
proof -
  from unpack_IIIf_nonneg [OF d1] have nn: "0 \<le> nbY" "0 \<le> nbX" "0 \<le> nB" by auto
  have u1: "unpack_from blob 34 16 = Inr (take 16 (drop 34 blob))"
    using len nn by (simp add: unpack_from_inside)
  have or0: "0 = (nbX OR nbY) \<longleftrightarrow> nbX = 0 \<and> nbY = 0"
    by (metis or_eq_0_iff)
  show ?thesis
    using d1 len bad
    by (auto simp: lerc_init_def Let_def u1 or0 feq_const new_session_def
        split: sum.splits)
qed

theorem failed_mask_validation_invalidates_witness:
  "unpack_IIIf (take 16 (drop 34 tiled_first_blob)) = (1, 0, 5, PFin 1)
   \<and> 66 + 5 \<le> int (length tiled_first_blob)
   \<and> (1::int) \<noteq> 0
   \<and> \<not> lerc_valid (lerc_init tiled_first_blob)
   \<and> v_nbY (lerc_init tiled_first_blob) = None
   \<and> m_nbY (lerc_init tiled_first_blob) = None"
proof -
  have l2: "66 + 5 \<le> int (length tiled_first_blob)"
    by (simp add: tiled_first_blob_length)
  have b: "(1::int) \<noteq> 0 \<or> (0::int) \<noteq> 0 \<or> (PFin 1 \<noteq> PFin 0 \<and> PFin 1 \<noteq> PFin 1)"
    by simp
  show ?thesis
    using failed_mask_validation_invalidates [OF tiled_first_blob_descriptor l2 b]
      tiled_first_blob_descriptor l2
    by simp
qed

subsection \<open>The run-length decoder\<close>

lemma unpack_from_length:
  "unpack_from blob off n = Inr bs \<Longrightarrow> 0 \<le> n \<Longrightarrow> length bs = nat n"
  by (auto simp: unpack_from_def Let_def split: if_splits)

lemma unpack_from_one:
  "unpack_from blob off 1 = Inr bs \<Longrightarrow> \<exists>b. bs = [b]"
  using unpack_from_length [of blob off 1 bs] by (cases bs) auto

lemma replicate_concat_single: "concat (replicate n [b]) = replicate n b"
  by (induction n) auto

lemma loop_imp_run:
  "decode_RLE_loop blob cursor budget out = Inr (cursor', out') \<Longrightarrow>
   \<exists>budget'. rle_run blob (cursor, budget, out) (cursor', budget', out')"
proof (induction blob cursor budget out rule: decode_RLE_loop.induct)
  case (1 blob offset nsize result)
  show ?case
  proof (cases "2 < nsize")
    case False
    with "1.prems" have "cursor' = offset" "out' = result"
      by (simp_all add: decode_RLE_loop.simps [of blob offset nsize result])
    moreover from False have "nsize < 3" by simp
    ultimately show ?thesis using rle_run.stop [of nsize blob offset result] by blast
  next
    case True
    then obtain cb where cb: "unpack_from blob offset 2 = Inr cb"
      using "1.prems"
      by (cases "unpack_from blob offset 2")
         (simp_all add: decode_RLE_loop.simps [of blob offset nsize result])
    let ?c = "to_signed 16 (le_uint cb)"
    from True have three: "3 \<le> nsize" by simp
    show ?thesis
    proof (cases "?c < 0")
      case neg: True
      then obtain bs where bs: "unpack_from blob (offset + 2) 1 = Inr bs"
        using "1.prems" True cb
        by (cases "unpack_from blob (offset + 2) 1")
           (simp_all add: decode_RLE_loop.simps [of blob offset nsize result])
      then obtain b where b: "bs = [b]" using unpack_from_one by blast
      have rec: "decode_RLE_loop blob (offset + 2 + 1) (nsize - (2 + 1))
                   (result @ concat (replicate (nat (- ?c)) bs)) = Inr (cursor', out')"
        using "1.prems" True cb neg bs
        by (simp add: decode_RLE_loop.simps [of blob offset nsize result] Let_def)
      from "1.IH"(1) [OF True cb refl neg bs rec]
      obtain budget' where run: "rle_run blob (offset + 2 + 1, nsize - (2 + 1),
          result @ concat (replicate (nat (- ?c)) bs)) (cursor', budget', out')" by blast
      have cc: "concat (replicate (nat (- ?c)) bs) = replicate (nat (- ?c)) b"
        by (simp add: b replicate_concat_single)
      have "rle_step blob (offset, nsize, result)
              (offset + 2 + 1, nsize - (2 + 1), result @ replicate (nat (- ?c)) b)"
        using three cb neg bs b by (intro rle_step.repeated) auto
      with run cc show ?thesis by (auto intro: rle_run.step)
    next
      case nonneg: False
      then obtain bs where bs: "unpack_from blob (offset + 2) ?c = Inr bs"
        using "1.prems" True cb
        by (cases "unpack_from blob (offset + 2) ?c")
           (simp_all add: decode_RLE_loop.simps [of blob offset nsize result])
      have rec: "decode_RLE_loop blob (offset + 2 + ?c) (nsize - (2 + ?c))
                   (result @ bs) = Inr (cursor', out')"
        using "1.prems" True cb nonneg bs
        by (simp add: decode_RLE_loop.simps [of blob offset nsize result] Let_def)
      from "1.IH"(2) [OF True cb refl nonneg bs rec]
      obtain budget' where run: "rle_run blob (offset + 2 + ?c, nsize - (2 + ?c),
          result @ bs) (cursor', budget', out')" by blast
      have "rle_step blob (offset, nsize, result)
              (offset + 2 + ?c, nsize - (2 + ?c), result @ bs)"
        using three cb nonneg bs by (intro rle_step.verbatim) auto
      with run show ?thesis by (auto intro: rle_run.step)
    qed
  qed
qed

lemma run_imp_loop:
  "rle_run blob st st' \<Longrightarrow>
   decode_RLE_loop blob (fst st) (fst (snd st)) (snd (snd st)) = Inr (fst st', snd (snd st'))
   \<and> fst (snd st') < 3"
proof (induction rule: rle_run.induct)
  case (stop budget cursor out)
  then show ?case by (simp add: decode_RLE_loop.simps [of blob cursor budget out])
next
  case (step st st' st'')
  from step.hyps(1) show ?case
  proof (cases rule: rle_step.cases)
    case (repeated budget cursor cb count b out)
    with step.IH show ?thesis
      by (simp add: decode_RLE_loop.simps [of blob cursor budget out]
          replicate_concat_single Let_def)
  next
    case (verbatim budget cursor cb count bs out)
    with step.IH show ?thesis
      by (simp add: decode_RLE_loop.simps [of blob cursor budget out] Let_def)
  qed
qed

text \<open>
  C6. \<^verbatim>\<open>decode_RLE(blob, offset, byteCount)\<close> returns exactly what the run-length
  format of the specification prescribes: it returns \<open>r\<close> if and only if the
  iterations of \<open>rle_step\<close>, started at \<open>offset\<close> with the budget \<open>byteCount\<close> and no
  bytes, stop (fewer than three bytes of budget) at a cursor where a signed 16-bit
  value can be read, and \<open>r\<close> is the accumulated bytes when that value is \<open>- 32768\<close>
  and no result otherwise. The loop always terminates: \<open>decode_RLE_loop\<close> is a total
  function.
\<close>

theorem decode_RLE_meets_spec:
  "decode_RLE blob offset byteCount = Inr r \<longleftrightarrow> rle_spec blob offset byteCount r"
proof
  assume d: "decode_RLE blob offset byteCount = Inr r"
  then obtain cursor out where l: "decode_RLE_loop blob offset byteCount [] = Inr (cursor, out)"
    by (auto simp: decode_RLE_def split: sum.splits)
  with d obtain sb where sb: "unpack_from blob cursor 2 = Inr sb"
    and r: "r = (if to_signed 16 (le_uint sb) = - 32768 then Some out else None)"
    by (auto simp: decode_RLE_def split: sum.splits if_splits)
  from loop_imp_run [OF l] sb r show "rle_spec blob offset byteCount r"
    unfolding rle_spec_def by blast
next
  assume "rle_spec blob offset byteCount r"
  then obtain cursor budget out sb where
    run: "rle_run blob (offset, byteCount, []) (cursor, budget, out)" and
    sb: "unpack_from blob cursor 2 = Inr sb" and
    r: "r = (if to_signed 16 (le_uint sb) = - 32768 then Some out else None)"
    unfolding rle_spec_def by blast
  from run_imp_loop [OF run] have "decode_RLE_loop blob offset byteCount [] = Inr (cursor, out)"
    by simp
  with sb r show "decode_RLE blob offset byteCount = Inr r"
    by (simp add: decode_RLE_def)
qed

theorem decode_RLE_meets_spec_witness:
  "decode_RLE rle_example 0 9 = Inr (Some [7, 7, 7, 8, 9])
   \<and> rle_spec rle_example 0 9 (Some [7, 7, 7, 8, 9])"
proof -
  have "decode_RLE rle_example 0 9 = Inr (Some [7, 7, 7, 8, 9])"
    by code_simp
  then show ?thesis
    using decode_RLE_meets_spec [of rle_example 0 9 "Some [7, 7, 7, 8, 9]"] by simp
qed

subsection \<open>The unpacker of bit-packed integers\<close>

lemma le_uint_bound: "le_uint bs < 2 ^ (8 * length bs)"
proof (induction bs)
  case Nil
  then show ?case by simp
next
  case (Cons b bs)
  have "uint b < 256" using uint_bounded [of b] by simp
  moreover from Cons have "le_uint bs + 1 \<le> 2 ^ (8 * length bs)" by simp
  then have "256 * (le_uint bs + 1) \<le> 256 * 2 ^ (8 * length bs)" by simp
  moreover have "(2::int) ^ (8 * length (b # bs)) = 256 * 2 ^ (8 * length bs)"
    by (simp add: power_add)
  ultimately show ?case by simp
qed

lemma words32_bound: "\<forall>w \<in> set (words32 bs). 0 \<le> w \<and> w < 2 ^ 32"
proof (induction bs rule: words32.induct)
  case (1 a b c d rest)
  have "le_uint [a, b, c, d] < 2 ^ (8 * length [a, b, c, d])" by (rule le_uint_bound)
  with 1 le_uint_nonneg [of "[a, b, c, d]"] show ?case by simp
qed simp_all

lemma v8_fold_bound:
  "0 \<le> acc \<Longrightarrow> acc < 2 ^ 32 \<Longrightarrow> \<forall>i \<in> set is. 8 * (i + 4 - e) + 8 \<le> 32 \<Longrightarrow>
   0 \<le> foldl (\<lambda>v8 i. v8 OR push_bit (8 * (i + 4 - e)) (uint (vs ! i))) acc is \<and>
   foldl (\<lambda>v8 i. v8 OR push_bit (8 * (i + 4 - e)) (uint ((vs :: byte list) ! i))) acc is < 2 ^ 32"
proof (induction "is" arbitrary: acc)
  case Nil
  then show ?case by simp
next
  case (Cons i "is")
  let ?t = "push_bit (8 * (i + 4 - e)) (uint (vs ! i)) :: int"
  have u: "uint (vs ! i) < 2 ^ 8" using uint_bounded [of "vs ! i"] by simp
  have "?t < 2 ^ (8 * (i + 4 - e) + 8)"
    using u by (simp add: push_bit_eq_mult power_add)
  also have "\<dots> \<le> 2 ^ 32" using Cons.prems(3) by (intro power_increasing) auto
  finally have t: "?t < 2 ^ 32" .
  have t0: "0 \<le> ?t" by simp
  have "acc OR ?t < 2 ^ 32" using Cons.prems(1,2) t by (intro OR_upper) auto
  moreover have "0 \<le> acc OR ?t" using Cons.prems(1) t0 by simp
  ultimately show ?case using Cons.IH [of "acc OR ?t"] Cons.prems(3) by simp
qed

lemma v8_of_bound:
  assumes "0 < e" "e < 4"
  shows "0 \<le> v8_of e vs \<and> v8_of e vs < 2 ^ 32"
  unfolding v8_of_def
  using assms by (intro v8_fold_bound) auto

lemma mask_AND_take_bit: "mask k AND (a::int) = take_bit k a"
  by (metis and.commute take_bit_eq_mask)

lemma drop_bit_bound:
  assumes "0 \<le> (v::int)" "v < 2 ^ (k + m)"
  shows "drop_bit k v < 2 ^ m"
proof -
  have "take_bit (k + m) v = v" using assms by (simp add: take_bit_int_eq_self)
  then have "drop_bit k v = drop_bit k (take_bit (k + m) v)" by simp
  also have "\<dots> = take_bit m (drop_bit k v)" by (simp add: drop_bit_take_bit)
  finally have "drop_bit k v = take_bit m (drop_bit k v)" .
  then show ?thesis by (metis take_bit_int_less_exp)
qed

lemma qval_loop_bound:
  "qval_loop n bl v src k = Inr xs \<Longrightarrow> 0 < n \<Longrightarrow> 0 \<le> bl \<Longrightarrow> bl \<le> 32 \<Longrightarrow>
   0 \<le> v \<Longrightarrow> v < 2 ^ 32 \<Longrightarrow> \<forall>w \<in> set src. 0 \<le> w \<and> w < 2 ^ 32 \<Longrightarrow>
   \<forall>x \<in> set xs. 0 \<le> x \<and> x < 2 ^ nat n"
proof (induction k arbitrary: bl v src xs)
  case 0
  then show ?case by simp
next
  case (Suc k)
  have msk: "push_bit (nat n) 1 - 1 = (mask (nat n) :: int)"
    "2 ^ nat n - 1 = (mask (nat n) :: int)"
    by (simp_all add: mask_eq_exp_minus_1)
  show ?case
  proof (cases "n \<le> bl")
    case True
    let ?x = "mask (nat n) AND drop_bit (nat (bl - n)) v"
    from Suc.prems(1) True obtain xs' where
      rec: "qval_loop n (bl - n) v src k = Inr xs'" and xs: "xs = ?x # xs'"
      by (auto simp: msk Let_def store_I_def split: sum.splits if_splits)
    have "0 \<le> ?x" using Suc.prems(5) by simp
    moreover have "?x < 2 ^ nat n"
      by (simp add: mask_AND_take_bit)
    moreover have "\<forall>x \<in> set xs'. 0 \<le> x \<and> x < 2 ^ nat n"
      using Suc.IH [OF rec] Suc.prems True by simp
    ultimately show ?thesis using xs by simp
  next
    case False
    let ?vtmp = "mask (nat n) AND push_bit (nat (n - bl)) v"
    from Suc.prems(1) False obtain v' src' xs' where
      src: "src = v' # src'" and bl': "0 \<le> bl + 32 - n" and
      rec: "qval_loop n (bl + 32 - n) v' src' k = Inr xs'" and
      xs: "xs = (?vtmp + drop_bit (nat (bl + 32 - n)) v') # xs'"
      by (auto simp: msk Let_def store_I_def split: sum.splits if_splits list.splits)
    from src Suc.prems(7) have v': "0 \<le> v'" "v' < 2 ^ 32" by auto
    have nb: "nat n = nat (n - bl) + nat bl" using False Suc.prems(3) by simp
    have vt: "?vtmp = push_bit (nat (n - bl)) (take_bit (nat bl) v)"
      by (simp add: mask_AND_take_bit take_bit_push_bit nb)
    have tb: "take_bit (nat bl) v + 1 \<le> 2 ^ nat bl"
      using take_bit_int_less_exp [of "nat bl" v] by linarith
    have "?vtmp + 2 ^ nat (n - bl) =
          push_bit (nat (n - bl)) (take_bit (nat bl) v) + 2 ^ nat (n - bl)"
      by (simp only: vt)
    also have "\<dots> = 2 ^ nat (n - bl) * (take_bit (nat bl) v + 1)"
      by (simp add: push_bit_eq_mult algebra_simps)
    also have "\<dots> \<le> 2 ^ nat (n - bl) * 2 ^ nat bl"
      using tb by (intro mult_left_mono) auto
    also have "\<dots> = 2 ^ nat n" by (simp add: nb power_add)
    finally have vtb: "?vtmp + 2 ^ nat (n - bl) \<le> 2 ^ nat n" .
    have "32 = nat (bl + 32 - n) + nat (n - bl)" using False bl' by simp
    with v' have db: "drop_bit (nat (bl + 32 - n)) v' < 2 ^ nat (n - bl)"
      by (intro drop_bit_bound) auto
    have d0: "0 \<le> drop_bit (nat (bl + 32 - n)) v'" using v'(1) by simp
    have vt0: "0 \<le> ?vtmp" by (simp only: vt) simp
    have "\<forall>x \<in> set xs'. 0 \<le> x \<and> x < 2 ^ nat n"
      using Suc.IH [OF rec] Suc.prems src v' False bl' by simp
    with vtb db d0 vt0 xs show ?thesis by simp
  qed
qed


lemma read_values32_bound:
  assumes "read_values32 blob offset nbytes = Inr (ws, offset')"
  shows "\<forall>w \<in> set ws. 0 \<le> w \<and> w < 2 ^ 32"
proof -
  let ?e = "nbytes - nbytes div 4 * 4"
  have e: "0 \<le> ?e" "?e < 4" by (simp_all add: minus_div_mult_eq_mod)
  from assms obtain wb where wb: "unpack_from blob offset (nbytes div 4 * 4) = Inr wb"
    by (auto simp: read_values32_def Let_def split: sum.splits)
  show ?thesis
  proof (cases "0 = ?e")
    case True
    with assms wb have "ws = words32 wb"
      by (simp add: read_values32_def Let_def)
    with words32_bound show ?thesis by simp
  next
    case False
    with assms wb obtain values8 where "ws = words32 wb @ [v8_of ?e values8]"
      by (auto simp: read_values32_def Let_def split: sum.splits)
    moreover from False e have "0 < ?e" by linarith
    ultimately show ?thesis using words32_bound [of wb] v8_of_bound [of ?e values8] e(2)
      by auto
  qed
qed

text \<open>
  C9. Whenever \<^verbatim>\<open>read_qval\<close> returns a sequence of unpacked integers, the number
  \<open>n\<close> of bits per value in the low six bits of the header byte is at least 1 and
  every element of the sequence is non-negative and below \<open>2 ^ n\<close>.
\<close>

theorem read_qval_values_in_range:
  assumes rq: "read_qval blob offset = Inr (Some values, offset')"
    and hb: "unpack_from blob offset 1 = Inr hb"
  shows "1 \<le> (le_uint hb AND 63) \<and>
         (\<forall>x \<in> set values. 0 \<le> x \<and> x < 2 ^ nat (le_uint hb AND 63))"
proof -
  let ?n = "le_uint hb AND 63"
  from rq hb have nz: "?n \<noteq> 0"
    by (auto simp: read_qval_def Let_def split: if_splits)
  have "0 \<le> ?n" by (simp add: le_uint_nonneg)
  with nz have pos: "0 < ?n" by linarith
  from rq hb nz obtain count offset2 where
    rc: "read_count (drop_bit 6 (le_uint hb)) blob (offset + 1) = Inr (count, offset2)"
    by (auto simp: read_qval_def Let_def split: sum.splits)
  with rq hb nz obtain ws offset3 where
    rv: "read_values32 blob offset2 ((count * ?n + 7) div 8) = Inr (ws, offset3)"
    by (auto simp: read_qval_def Let_def split: sum.splits)
  with rq hb nz rc have uv: "unpack_values ?n count ws = Inr values"
    by (auto simp: read_qval_def Let_def split: sum.splits)
  then obtain v src where ws: "ws = v # src"
    and loop: "qval_loop ?n 32 v src (nat count) = Inr values"
    by (auto simp: unpack_values_def split: list.splits)
  from read_values32_bound [OF rv] ws
  have b: "0 \<le> v" "v < 2 ^ 32" "\<forall>w \<in> set src. 0 \<le> w \<and> w < 2 ^ 32" by auto
  from qval_loop_bound [OF loop pos _ _ b]
  have "\<forall>x \<in> set values. 0 \<le> x \<and> x < 2 ^ nat ?n" by simp
  with pos show ?thesis by simp
qed

theorem read_qval_values_in_range_witness:
  "read_qval qval_example 0 = Inr (Some [5, 3, 1], 4)
   \<and> unpack_from qval_example 0 1 = Inr [0x83]
   \<and> (1::int) \<le> (le_uint [0x83] AND 63)
   \<and> (5::int) < 2 ^ nat (le_uint [0x83] AND 63)
   \<and> (3::int) < 2 ^ nat (le_uint [0x83] AND 63)
   \<and> (1::int) < 2 ^ nat (le_uint [0x83] AND 63)"
proof -
  have r: "read_qval qval_example 0 = Inr (Some [5, 3, 1], 4)"
    by code_simp
  have h: "unpack_from qval_example 0 1 = Inr [0x83]"
    by (simp add: qval_example_def unpack_from_def)
  show ?thesis
    using read_qval_values_in_range [OF r h] r h by simp
qed

subsection \<open>Rounding\<close>

text \<open>
  What the proofs below need of the rounding: a value that does not exceed a
  representable bound is rounded to a value that does not exceed it, and a
  representable value is rounded to itself.
\<close>

lemma rne_le: "x \<le> of_int N \<Longrightarrow> rne x \<le> N"
proof -
  assume a: "x \<le> of_int N"
  show ?thesis
  proof (cases "x = of_int N")
    case True
    then show ?thesis by (simp add: rne_def)
  next
    case False
    with a have "x < of_int N" by simp
    then have "\<lfloor>x\<rfloor> < N" by (simp add: floor_less_iff)
    then show ?thesis by (auto simp: rne_def Let_def)
  qed
qed

lemma rne_ge: "of_int N \<le> x \<Longrightarrow> N \<le> rne x"
proof -
  assume "of_int N \<le> x"
  then have "N \<le> \<lfloor>x\<rfloor>" by (simp add: le_floor_iff)
  then show ?thesis by (auto simp: rne_def Let_def)
qed

lemma ilog2_le:
  assumes "0 < a"
  shows "2 powi (ilog2 a) \<le> a"
proof -
  obtain n d where q: "quotient_of a = (n, d)" by (cases "quotient_of a")
  then have d: "0 < d" and a: "a = of_int n / of_int d"
    by (simp_all add: quotient_of_denom_pos quotient_of_div)
  from assms a d have n: "0 < n" by (simp add: zero_less_divide_iff)
  let ?e0 = "bitlen n - bitlen d"
  show ?thesis
  proof (cases "2 powi ?e0 \<le> a")
    case True
    then show ?thesis by (simp add: ilog2_def q)
  next
    case False
    from bitlen_bounds [OF n] have "2 ^ nat (bitlen n - 1) \<le> n" by simp
    then have nb: "(2::rat) ^ nat (bitlen n - 1) \<le> of_int n"
      by (metis of_int_le_iff of_int_numeral of_int_power)
    from bitlen_bounds [OF d] have "d < 2 ^ nat (bitlen d)" by simp
    then have db: "of_int d < (2::rat) ^ nat (bitlen d)"
      by (metis of_int_less_iff of_int_numeral of_int_power)
    have bn: "1 \<le> bitlen n" using n by (simp add: bitlen_alt_def)
    have bd: "0 \<le> bitlen d" by (rule bitlen_nonneg)
    have "(2::rat) powi (?e0 - 1) = 2 powi (bitlen n - 1) / 2 powi (bitlen d)"
      by (simp add: power_int_diff)
    also have "\<dots> = 2 ^ nat (bitlen n - 1) / 2 ^ nat (bitlen d)"
      using bn bd by (simp add: power_int_nonneg_exp)
    also have "\<dots> \<le> of_int n / of_int d"
      using nb db d n by (intro frac_le) auto
    finally have "2 powi (?e0 - 1) \<le> a" by (simp add: a)
    with False show ?thesis by (simp add: ilog2_def q)
  qed
qed


lemma round_ieee_pos_le:
  assumes x: "0 < x" "x \<le> of_int M * 2 powi c"
    and M: "M < 2 ^ nat p" and p: "0 < p" and c: "emin - p + 1 \<le> c"
    and top: "of_int M * 2 powi c < (2::rat) powi (emax + 1)"
  shows "\<exists>r. round_ieee p emin emax x = PFin r \<and> r \<le> of_int M * 2 powi c"
proof -
  let ?m = "of_int M * 2 powi c :: rat"
  let ?e = "max emin (ilog2 x)"
  let ?u = "2 powi (?e - p + 1) :: rat"
  let ?r = "of_int (rne (x / ?u)) * ?u"
  have u: "0 < ?u" by simp
  have Mr: "(of_int M :: rat) < 2 ^ nat p"
    using M by (metis of_int_less_iff of_int_numeral of_int_power)
  have ce: "?e - p + 1 \<le> c"
  proof (rule ccontr)
    assume "\<not> ?e - p + 1 \<le> c"
    then have lt: "c + p \<le> ?e" by simp
    with c have "emin < ?e" by simp
    then have e: "?e = ilog2 x" by simp
    have "?m < 2 ^ nat p * 2 powi c"
      using Mr by (intro mult_strict_right_mono) auto
    also have "\<dots> = 2 powi (c + p)"
      using p by (simp add: power_int_add power_int_nonneg_exp [symmetric] mult.commute)
    also have "\<dots> \<le> 2 powi ?e" using lt by (intro power_int_increasing) auto
    also have "\<dots> \<le> x" using ilog2_le [OF x(1)] e by simp
    finally show False using x(2) by simp
  qed
  define k where "k = nat (c - (?e - p + 1))"
  have kc: "c = (?e - p + 1) + int k" using ce by (simp add: k_def)
  have mu: "?m = of_int (M * 2 ^ k) * ?u"
    by (subst kc, subst power_int_add) (simp_all add: mult.commute)
  have "x / ?u \<le> ?m / ?u" using x(2) u by (simp add: divide_right_mono)
  also have "?m / ?u = of_int (M * 2 ^ k)" using u by (simp add: mu)
  finally have "rne (x / ?u) \<le> M * 2 ^ k" by (rule rne_le)
  then have "(of_int (rne (x / ?u)) :: rat) \<le> of_int (M * 2 ^ k)" by (simp only: of_int_le_iff)
  then have "?r \<le> of_int (M * 2 ^ k) * ?u" using u by (intro mult_right_mono) auto
  then have rm: "?r \<le> ?m" by (simp only: mu)
  with top have "\<not> 2 powi (emax + 1) \<le> ?r" by simp
  with rm x(1) show ?thesis
    by (simp add: round_ieee_def Let_def)
qed

lemma round_ieee_pos_ge:
  assumes x: "0 < x" "of_int M * 2 powi c \<le> (x::rat)"
    and M: "M < 2 ^ nat p" and p: "0 < p" and c: "emin - p + 1 \<le> c"
  shows "(of_int M * 2 powi c :: rat)
         \<le> of_int (rne (x / 2 powi (max emin (ilog2 x) - p + 1))) * 2 powi (max emin (ilog2 x) - p + 1)"
proof -
  let ?m = "of_int M * 2 powi c :: rat"
  let ?e = "max emin (ilog2 x)"
  let ?u = "2 powi (?e - p + 1) :: rat"
  let ?r = "of_int (rne (x / ?u)) * ?u"
  have u: "0 < ?u" by simp
  have Mr: "(of_int M :: rat) < 2 ^ nat p"
    using M by (metis of_int_less_iff of_int_numeral of_int_power)
  show "?m \<le> ?r"
  proof (cases "?e - p + 1 \<le> c")
    case True
    define k where "k = nat (c - (?e - p + 1))"
    have kc: "c = (?e - p + 1) + int k" using True by (simp add: k_def)
    have mu: "?m = of_int (M * 2 ^ k) * ?u"
      by (subst kc, subst power_int_add) (simp_all add: mult.commute)
    have "?m / ?u \<le> x / ?u" using x(2) u by (simp add: divide_right_mono)
    moreover have "?m / ?u = of_int (M * 2 ^ k)" using u by (simp add: mu)
    ultimately have "of_int (M * 2 ^ k) \<le> x / ?u" by simp
    then have "M * 2 ^ k \<le> rne (x / ?u)" by (rule rne_ge)
    then have "(of_int (M * 2 ^ k) :: rat) \<le> of_int (rne (x / ?u))" by (simp only: of_int_le_iff)
    then have "of_int (M * 2 ^ k) * ?u \<le> ?r" using u by (intro mult_right_mono) auto
    then show ?thesis by (simp only: mu)
  next
    case False
    then have lt: "c + p \<le> ?e" by simp
    with c have "emin < ?e" by simp
    then have e: "?e = ilog2 x" by simp
    have "?m < 2 ^ nat p * 2 powi c"
      using Mr by (intro mult_strict_right_mono) auto
    also have "\<dots> = 2 powi (c + p)"
      using p by (simp add: power_int_add power_int_nonneg_exp [symmetric] mult.commute)
    also have "\<dots> \<le> 2 powi ?e" using lt by (intro power_int_increasing) auto
    finally have me: "?m < 2 powi ?e" .
    define j where "j = nat (p - 1)"
    have j: "int j = p - 1" using p by (simp add: j_def)
    have eu: "(2::rat) powi ?e = of_int (2 ^ j) * ?u"
    proof -
      have ee: "?e = int j + (?e - p + 1)" using j by simp
      have "(2::rat) powi ?e = 2 powi (int j + (?e - p + 1))"
        by (subst ee) (rule refl)
      also have "\<dots> = 2 powi int j * ?u"
        by (subst power_int_add) simp_all
      finally show ?thesis by simp
    qed
    have "2 powi ?e \<le> x" using ilog2_le [OF x(1)] e by simp
    then have "2 powi ?e / ?u \<le> x / ?u" using u by (simp add: divide_right_mono)
    moreover have "2 powi ?e / ?u = of_int (2 ^ j)" using u by (simp add: eu)
    ultimately have "of_int (2 ^ j) \<le> x / ?u" by simp
    then have "2 ^ j \<le> rne (x / ?u)" by (rule rne_ge)
    then have "(of_int (2 ^ j) :: rat) \<le> of_int (rne (x / ?u))"
      by (simp only: of_int_le_iff)
    then have "of_int (2 ^ j) * ?u \<le> ?r" using u by (intro mult_right_mono) auto
    then have "2 powi ?e \<le> ?r" by (simp only: eu)
    with me show ?thesis by simp
  qed
qed

lemma ieee_dec_mag:
  assumes "ieee_dec ebits mbits w = PFin m" and eb: "2 \<le> ebits"
  shows "\<exists>M c. \<bar>m\<bar> = of_int M * 2 powi c \<and> 0 \<le> M \<and> M < 2 ^ (mbits + 1)
           \<and> 1 - (2 ^ (ebits - 1) - 1) - int mbits \<le> c
           \<and> c \<le> 2 ^ ebits - 2 - (2 ^ (ebits - 1) - 1) - int mbits"
proof -
  define e where "e = (w div 2 ^ mbits) mod 2 ^ ebits"
  define f where "f = w mod 2 ^ mbits"
  define bias :: int where "bias = 2 ^ (ebits - 1) - 1"
  define s where "s = (w div 2 ^ (ebits + mbits)) mod 2"
  have f: "0 \<le> f" "f < 2 ^ mbits" by (simp_all add: f_def)
  have e: "0 \<le> e" "e < 2 ^ ebits" by (simp_all add: e_def)
  have dec: "ieee_dec ebits mbits w =
      (if e = 2 ^ ebits - 1 then (if f = 0 then PInf (s = 1) else PNaN)
       else let mag = (if e = 0 then of_int f * 2 powi (1 - bias - int mbits)
                       else of_int (2 ^ mbits + f) * 2 powi (e - bias - int mbits))
            in PFin (if s = 1 then - mag else mag))"
    unfolding ieee_dec_def e_def f_def bias_def s_def Let_def by (rule refl)
  from assms dec have ne: "e \<noteq> 2 ^ ebits - 1" by (auto split: if_splits)
  show ?thesis
  proof (cases "e = 0")
    case True
    let ?mag = "of_int f * 2 powi (1 - bias - int mbits) :: rat"
    from assms dec ne True have "m = ?mag \<or> m = - ?mag" by (auto simp: Let_def split: if_splits)
    moreover have "0 \<le> ?mag" using f(1) by (intro mult_nonneg_nonneg) auto
    ultimately have "\<bar>m\<bar> = ?mag" by auto
    moreover have "(2::int) ^ 2 \<le> 2 ^ ebits" using eb by (intro power_increasing) auto
    then have "(4::int) \<le> 2 ^ ebits" by simp
    ultimately show ?thesis using f True
      by (intro exI [of _ f] exI [of _ "1 - bias - int mbits"]) (auto simp: bias_def)
  next
    case False
    let ?mag = "of_int (2 ^ mbits + f) * 2 powi (e - bias - int mbits) :: rat"
    from assms dec ne False have "m = ?mag \<or> m = - ?mag" by (auto simp: Let_def split: if_splits)
    moreover have "0 \<le> ?mag" using f(1) by (intro mult_nonneg_nonneg) auto
    ultimately have "\<bar>m\<bar> = ?mag" by auto
    moreover have "1 \<le> e" "e \<le> 2 ^ ebits - 2" using False e ne by simp_all
    ultimately show ?thesis using f
      by (intro exI [of _ "2 ^ mbits + f"] exI [of _ "e - bias - int mbits"]) (auto simp: bias_def)
  qed
qed

lemma ieee_dec_finite:
  assumes "ieee_dec 8 23 w = PFin m"
  shows "\<exists>M c. \<bar>m\<bar> = of_int M * 2 powi c \<and> 0 \<le> M \<and> M < 2 ^ 24 \<and> - 149 \<le> c
            \<and> of_int M * 2 powi c < (2::rat) powi 128"
proof -
  from ieee_dec_mag [OF assms] obtain M c where
    m: "\<bar>m\<bar> = of_int M * 2 powi c" and M: "0 \<le> M" "M < 2 ^ 24" and
    c: "- 149 \<le> c" "c \<le> 104"
    by auto
  have "(of_int M :: rat) < 2 ^ 24" using M(2)
    by (metis of_int_less_iff of_int_numeral of_int_power)
  then have "of_int M * 2 powi c < (2::rat) ^ 24 * 2 powi c"
    by (intro mult_strict_right_mono) auto
  also have "\<dots> \<le> 2 ^ 24 * 2 powi 104"
    using c(2) by (intro mult_left_mono power_int_increasing) auto
  also have "\<dots> = 2 powi 128" by simp
  finally show ?thesis using m M c(1) by blast
qed

lemma round32_not_above:
  assumes rep: "\<bar>m\<bar> = of_int M * 2 powi c" "0 \<le> M" "M < 2 ^ 24" "- 149 \<le> c"
      "of_int M * 2 powi c < (2::rat) powi 128"
    and xm: "x \<le> m"
  shows "\<not> flt (PFin m) (round32 x)"
proof -
  consider "x = 0" | "0 < x" | "x < 0" by linarith
  then show ?thesis
  proof cases
    case 1
    with xm show ?thesis by (simp add: round32_def round_ieee_def)
  next
    case 2
    with xm have "0 < m" by simp
    then have am: "\<bar>m\<bar> = m" by simp
    from round_ieee_pos_le [of x M c 24 "- 126" 127] 2 xm rep am
    obtain r where "round_ieee 24 (- 126) 127 x = PFin r" "r \<le> m" by auto
    then show ?thesis by (simp add: round32_def)
  next
    case 3
    let ?u = "2 powi (max (- 126) (ilog2 \<bar>x\<bar>) - 24 + 1) :: rat"
    let ?r = "of_int (rne (\<bar>x\<bar> / ?u)) * ?u"
    have u: "0 < ?u" by simp
    have "0 \<le> \<bar>x\<bar> / ?u" using u by simp
    then have "of_int 0 \<le> \<bar>x\<bar> / ?u" by simp
    then have "0 \<le> rne (\<bar>x\<bar> / ?u)" by (rule rne_ge)
    then have r0: "0 \<le> ?r" using u by simp
    have rd: "round32 x = (if 2 powi 128 \<le> ?r then PInf True else PFin (- ?r))"
      using 3 by (simp add: round32_def round_ieee_def Let_def)
    show ?thesis
    proof (cases "0 \<le> m")
      case True
      with r0 show ?thesis by (simp add: rd)
    next
      case False
      then have am: "\<bar>m\<bar> = - m" by simp
      from False xm 3 have le: "of_int M * 2 powi c \<le> \<bar>x\<bar>" using rep(1) am by simp
      from 3 have ax: "0 < \<bar>x\<bar>" by simp
      from round_ieee_pos_ge [OF ax le, of 24 "- 126"] rep
      have "of_int M * 2 powi c \<le> ?r" by simp
      with rep(1) am have "- ?r \<le> m" by simp
      then show ?thesis by (simp add: rd)
    qed
  qed
qed

lemma clamp_not_above:
  "\<not> flt (f32_dec mb) (to_f32 (fmin a (f32_dec mb)))"
proof (cases "f32_dec mb")
  case PNaN
  then show ?thesis by simp
next
  case (PInf t)
  then show ?thesis
    by (cases a; cases "to_f32 a") (auto simp: fmin_def)
next
  case (PFin m)
  then obtain M c where rep: "\<bar>m\<bar> = of_int M * 2 powi c" "0 \<le> M" "M < 2 ^ 24" "- 149 \<le> c"
      "of_int M * 2 powi c < (2::rat) powi 128"
    using ieee_dec_finite [of "le_uint mb" m] by (auto simp: f32_dec_def)
  show ?thesis
  proof (cases a)
    case (PFin x)
    then show ?thesis
      using round32_not_above [OF rep, of x] round32_not_above [OF rep, of m] \<open>f32_dec mb = PFin m\<close>
      by (auto simp: fmin_def)
  next
    case (PInf s)
    then show ?thesis
      using round32_not_above [OF rep, of m] \<open>f32_dec mb = PFin m\<close>
      by (auto simp: fmin_def)
  next
    case PNaN
    then show ?thesis using \<open>f32_dec mb = PFin m\<close> by (simp add: fmin_def)
  qed
qed

lemma round_ieee_exact_pos:
  assumes x: "0 < x" "x = of_int M * 2 powi c"
    and M: "M < 2 ^ nat p" and p: "0 < p" and c: "emin - p + 1 \<le> c"
    and top: "x < (2::rat) powi (emax + 1)"
  shows "round_ieee p emin emax x = PFin x" "round_ieee p emin emax (- x) = PFin (- x)"
proof -
  let ?u = "2 powi (max emin (ilog2 x) - p + 1) :: rat"
  let ?r = "of_int (rne (x / ?u)) * ?u"
  from round_ieee_pos_le [of x M c p emin emax] x M p c top
  obtain r where r: "round_ieee p emin emax x = PFin r" "r \<le> x" by auto
  from round_ieee_pos_ge [of x M c p emin] x M p c have ge: "x \<le> ?r" by simp
  from r(1) x(1) have "r = ?r" "\<not> 2 powi (emax + 1) \<le> ?r"
    by (auto simp: round_ieee_def Let_def split: if_splits)
  with r ge have "?r = x" by simp
  with x(1) top show "round_ieee p emin emax x = PFin x" "round_ieee p emin emax (- x) = PFin (- x)"
    by (simp_all add: round_ieee_def Let_def)
qed

lemma round_ieee_int:
  assumes k: "\<bar>k\<bar> < 2 ^ nat p" and p: "0 < p" "p \<le> emax + 1" and emin: "emin - p + 1 \<le> 0"
  shows "round_ieee p emin emax (of_int k) = PFin (of_int k)"
proof -
  have top: "(of_int \<bar>k\<bar> :: rat) < 2 powi (emax + 1)"
  proof -
    have "(of_int \<bar>k\<bar> :: rat) < 2 ^ nat p" using k
      by (metis of_int_less_iff of_int_numeral of_int_power)
    also have "\<dots> = 2 powi p" using p by (simp add: power_int_nonneg_exp)
    also have "\<dots> \<le> 2 powi (emax + 1)" using p by (intro power_int_increasing) auto
    finally show ?thesis .
  qed
  consider "k = 0" | "0 < k" | "k < 0" by linarith
  then show ?thesis
  proof cases
    case 1
    then show ?thesis by (simp add: round_ieee_def)
  next
    case 2
    with round_ieee_exact_pos(1) [of "of_int k" k 0 p emin emax] k p emin top
    show ?thesis by simp
  next
    case 3
    with round_ieee_exact_pos(2) [of "of_int (- k)" "- k" 0 p emin emax] k p emin top
    show ?thesis by simp
  qed
qed

lemma round64_int: "\<bar>k\<bar> < 2 ^ 53 \<Longrightarrow> round64 (of_int k) = PFin (of_int k)"
  unfolding round64_def by (rule round_ieee_int) simp_all

lemma round32_int: "\<bar>k\<bar> < 2 ^ 24 \<Longrightarrow> round32 (of_int k) = PFin (of_int k)"
  unfolding round32_def by (rule round_ieee_int) simp_all

lemma round64_numeral: "numeral k < (2::int) ^ 53 \<Longrightarrow> round64 (numeral k) = PFin (numeral k)"
  using round64_int [of "numeral k"] by simp

lemma round32_numeral: "numeral k < (2::int) ^ 24 \<Longrightarrow> round32 (numeral k) = PFin (numeral k)"
  using round32_int [of "numeral k"] by simp

subsection \<open>The block decoder\<close>

lemma py_index_inside: "0 \<le> i \<Longrightarrow> i < int n \<Longrightarrow> py_index n i = Some (nat i)"
  by (simp add: py_index_def)

lemma py_index_Some_less: "py_index n i = Some k \<Longrightarrow> k < n"
  by (auto simp: py_index_def split: if_splits)

lemma store_f_length: "store_f data i v = Inr data' \<Longrightarrow> length data' = length data"
  by (auto simp: store_f_def split: option.splits)

lemma set_dloop: "set (dloop xr yr) = set xr \<times> set yr"
  by (auto simp: dloop_def)

lemma const_loop_fills:
  assumes "\<forall>(x, y) \<in> set ps. 0 \<le> y * bm_w msk + x \<and> y * bm_w msk + x < int (length data)"
  shows "\<exists>data'. const_loop ps msk mval data = Inr data' \<and> length data' = length data \<and>
           (\<forall>(x, y) \<in> set ps. data' ! nat (y * bm_w msk + x) = to_f32 mval) \<and>
           (\<forall>i < length data. (\<forall>(x, y) \<in> set ps. i \<noteq> nat (y * bm_w msk + x))
               \<longrightarrow> data' ! i = data ! i)"
  using assms
proof (induction ps arbitrary: data)
  case Nil
  then show ?case by simp
next
  case (Cons p ps)
  obtain x y where p: "p = (x, y)" by (cases p)
  let ?i = "y * bm_w msk + x"
  let ?d1 = "data[nat ?i := to_f32 mval]"
  from Cons.prems p have i: "0 \<le> ?i" "?i < int (length data)" by auto
  then have st: "store_f data ?i mval = Inr ?d1"
    by (simp add: store_f_def py_index_inside)
  from Cons.prems have "\<forall>(x, y) \<in> set ps. 0 \<le> y * bm_w msk + x \<and> y * bm_w msk + x < int (length ?d1)"
    by auto
  from Cons.IH [OF this] obtain data' where
    l: "const_loop ps msk mval ?d1 = Inr data'" and len: "length data' = length data" and
    fill: "\<forall>(x, y) \<in> set ps. data' ! nat (y * bm_w msk + x) = to_f32 mval" and
    keep: "\<forall>i < length data. (\<forall>(x, y) \<in> set ps. i \<noteq> nat (y * bm_w msk + x))
               \<longrightarrow> data' ! i = ?d1 ! i"
    by auto
  have hd: "data' ! nat ?i = to_f32 mval"
  proof (cases "\<exists>(x', y') \<in> set ps. nat ?i = nat (y' * bm_w msk + x')")
    case True
    with fill show ?thesis by auto
  next
    case False
    then have "\<forall>(x', y') \<in> set ps. nat ?i \<noteq> nat (y' * bm_w msk + x')" by auto
    moreover have "nat ?i < length data" using i by simp
    ultimately have "data' ! nat ?i = ?d1 ! nat ?i" using keep by blast
    with i show ?thesis by simp
  qed
  have "const_loop (p # ps) msk mval data = Inr data'"
    by (simp add: p st l)
  moreover have "\<forall>(x, y) \<in> set (p # ps). data' ! nat (y * bm_w msk + x) = to_f32 mval"
    using hd fill p by auto
  moreover have "\<forall>i < length data. (\<forall>(x, y) \<in> set (p # ps). i \<noteq> nat (y * bm_w msk + x))
               \<longrightarrow> data' ! i = data ! i"
    using keep p by auto
  ultimately show ?case using len by blast
qed

lemma const_loop_mask_data:
  "const_loop ps (msk\<lparr>bm_data := d\<rparr>) mval data = const_loop ps msk mval data"
  by (induction ps arbitrary: data) (auto split: sum.splits)

lemma read_block_constant:
  assumes fb: "unpack_from blob offset 1 = Inr fb"
    and mode: "le_uint fb AND 63 = 2 \<or> le_uint fb AND 63 = 3"
  shows "read_block data rx ry msk Q max_val blob offset =
     (case (if le_uint fb AND 63 = 3 then read_mval (drop_bit 6 (le_uint fb)) blob (offset + 1)
            else Inr (PFin 0, offset + 1)) of
        Inl e \<Rightarrow> Inl e
      | Inr (mval, offset2) \<Rightarrow>
          (case const_loop (dloop rx ry) msk mval data of
             Inl e \<Rightarrow> Inl e
           | Inr data' \<Rightarrow> Inr (data', offset2)))"
  using mode by (auto simp: read_block_def fb Let_def split: sum.splits)

lemmas block_eval =
  read_block_def unpack_from_def read_mval_def dloop_def store_f_def py_index_def
  to_signed_def fint_def round32_numeral round64_numeral read_qval_def read_count_def
  read_values32_def unpack_values_def v8_of_def store_I_def bitmask_at_def fmin_def
  quant_blob_def const_blob_def mask_set_def mask_clear_def

lemma read_block_const_blob:
  "read_block [PFin 0] [0] [0] mask_clear (PFin 1) (PFin 1) const_blob 0 = Inr ([PFin 5], 2)"
  by (simp add: block_eval)

lemma read_block_quant_blob_clear:
  "read_block [PFin 0] [0] [0] mask_clear (PFin 1) (PFin 100) quant_blob 0 = Inr ([PFin 0], 5)"
  by (simp add: block_eval)

lemma read_block_quant_blob_set:
  "read_block [PFin 0] [0] [0] mask_set (PFin 1) (PFin 100) quant_blob 0 = Inr ([PFin 6], 5)"
  by (simp add: block_eval round64_one)

lemma f32_dec_four: "f32_dec [0, 0, 0x80, 0x40] = PFin 4"
  by (simp add: f32_dec_def ieee_dec_def)

lemma read_block_quant_blob_clamped:
  "read_block [PFin 0] [0] [0] mask_set (PFin 1) (f32_dec [0, 0, 0x80, 0x40]) quant_blob 0
     = Inr ([PFin 4], 5)"
  by (simp add: block_eval round64_one f32_dec_four)

text \<open>
  C4 fails: a flag byte whose low six bits equal 1 selects the quantized encoding, not
  the constant one. The block \<open>quant_blob\<close> has these bits and the minimum 5; its pixel
  is left at 0.0 under a cleared mask and becomes 6.0 under a set mask.
\<close>

theorem mode_one_constant_counterexample:
  "le_uint [0x81] AND 63 = 1
   \<and> unpack_from quant_blob 0 1 = Inr [0x81]
   \<and> read_mval (drop_bit 6 (le_uint [0x81])) quant_blob 1 = Inr (PFin 5, 2)
   \<and> read_block [PFin 0] [0] [0] mask_clear (PFin 1) (PFin 100) quant_blob 0 = Inr ([PFin 0], 5)
   \<and> read_block [PFin 0] [0] [0] mask_set (PFin 1) (PFin 100) quant_blob 0 = Inr ([PFin 6], 5)"
  by (simp add: read_block_quant_blob_clear read_block_quant_blob_set)
     (simp add: quant_blob_def unpack_from_def read_mval_def to_signed_def fint_def)

text \<open>
  C4 as amended. For every block whose flag byte's low six bits equal 2 or 3 (bit 1
  set: the constant encoding), \<^verbatim>\<open>read_block\<close> sets every pixel of the block's x-range and
  y-range in the sample grid to the minimum value (0.0 for 2, the stored minimum for
  3), whatever the mask contains. The pixels are required to lie inside the sample
  array, as they do in \<^verbatim>\<open>read_tiles\<close>, and the minimum to be readable; the value stored
  is the minimum narrowed to binary32.
\<close>

theorem constant_block_fills:
  assumes fb: "unpack_from blob offset 1 = Inr fb"
    and mode: "le_uint fb AND 63 = 2 \<or> le_uint fb AND 63 = 3"
    and mv: "(if le_uint fb AND 63 = 3 then read_mval (drop_bit 6 (le_uint fb)) blob (offset + 1)
              else Inr (PFin 0, offset + 1)) = Inr (mval, offset')"
    and inside: "\<forall>x \<in> set rx. \<forall>y \<in> set ry.
                   0 \<le> y * bm_w msk + x \<and> y * bm_w msk + x < int (length data)"
  shows "\<exists>data'. read_block data rx ry msk Q max_val blob offset = Inr (data', offset')
           \<and> length data' = length data
           \<and> (\<forall>x \<in> set rx. \<forall>y \<in> set ry. data' ! nat (y * bm_w msk + x) = to_f32 mval)
           \<and> (\<forall>d. read_block data rx ry (msk\<lparr>bm_data := d\<rparr>) Q max_val blob offset
                   = Inr (data', offset'))"
proof -
  from inside have "\<forall>(x, y) \<in> set (dloop rx ry).
      0 \<le> y * bm_w msk + x \<and> y * bm_w msk + x < int (length data)"
    by (auto simp: set_dloop)
  from const_loop_fills [OF this, of mval] obtain data' where
    l: "const_loop (dloop rx ry) msk mval data = Inr data'" and len: "length data' = length data" and
    fill: "\<forall>(x, y) \<in> set (dloop rx ry). data' ! nat (y * bm_w msk + x) = to_f32 mval"
    by blast
  have r: "read_block data rx ry m Q max_val blob offset =
      (case const_loop (dloop rx ry) m mval data of
             Inl e \<Rightarrow> Inl e
           | Inr data' \<Rightarrow> Inr (data', offset'))" for m
    by (simp add: read_block_constant [OF fb mode] mv)
  have "read_block data rx ry msk Q max_val blob offset = Inr (data', offset')"
    by (simp add: r l)
  moreover have "read_block data rx ry (msk\<lparr>bm_data := d\<rparr>) Q max_val blob offset
                   = Inr (data', offset')" for d
    by (simp add: r const_loop_mask_data l)
  moreover have "\<forall>x \<in> set rx. \<forall>y \<in> set ry. data' ! nat (y * bm_w msk + x) = to_f32 mval"
    using fill by (auto simp: set_dloop)
  ultimately show ?thesis using len by blast
qed

theorem constant_block_fills_witness:
  "unpack_from const_blob 0 1 = Inr [0x83]
   \<and> le_uint [0x83] AND 63 = 3
   \<and> read_mval (drop_bit 6 (le_uint [0x83])) const_blob (0 + 1) = Inr (PFin 5, 2)
   \<and> read_block [PFin 0] [0] [0] mask_clear (PFin 1) (PFin 1) const_blob 0 = Inr ([PFin 5], 2)
   \<and> [PFin 5] ! nat (0 * bm_w mask_clear + 0) = to_f32 (PFin 5)"
proof -
  have fb: "unpack_from const_blob 0 1 = Inr [0x83]"
    by (simp add: const_blob_def unpack_from_def)
  have mode: "le_uint [0x83] AND 63 = 2 \<or> le_uint [0x83] AND 63 = 3"
    by simp
  have mv: "(if le_uint [0x83] AND 63 = 3
             then read_mval (drop_bit 6 (le_uint [0x83])) const_blob (0 + 1)
             else Inr (PFin 0, 0 + 1)) = Inr (PFin 5, 2)"
    by (simp add: const_blob_def unpack_from_def read_mval_def to_signed_def fint_def)
  have inside: "\<forall>x \<in> set [0]. \<forall>y \<in> set [0].
      0 \<le> y * bm_w mask_clear + x \<and> y * bm_w mask_clear + x < int (length [PFin 0])"
    by simp
  from constant_block_fills [OF fb mode mv inside, of "PFin 1" "PFin 1"]
  obtain data' where
    "read_block [PFin 0] [0] [0] mask_clear (PFin 1) (PFin 1) const_blob 0 = Inr (data', 2)"
    "\<forall>x \<in> set [0]. \<forall>y \<in> set [0]. data' ! nat (y * bm_w mask_clear + x) = to_f32 (PFin 5)"
    by blast
  then show ?thesis
    using fb mv by (simp add: read_block_const_blob)
qed

lemma quant_loop_clamped:
  assumes "quant_loop ps msk mval Q (f32_dec mb) src data = Inr data'"
  shows "length data' = length data \<and>
         (\<forall>i < length data. data' ! i = data ! i \<or> \<not> flt (f32_dec mb) (data' ! i))"
  using assms
proof (induction ps arbitrary: src data)
  case Nil
  then show ?case by simp
next
  case (Cons p ps)
  obtain x y where p: "p = (x, y)" by (cases p)
  from Cons.prems p obtain b where at: "bitmask_at msk x y = Inr b"
    by (auto split: sum.splits)
  show ?case
  proof (cases b)
    case False
    with Cons.prems p at have "quant_loop ps msk mval Q (f32_dec mb) src data = Inr data'"
      by simp
    from Cons.IH [OF this] show ?thesis .
  next
    case True
    with Cons.prems p at obtain k src' where src: "src = k # src'"
      by (cases src) auto
    let ?v = "fmin (fadd mval (fmul Q (fint k))) (f32_dec mb)"
    from Cons.prems p at True src obtain d1 where
      st: "store_f data (y * bm_w msk + x) ?v = Inr d1" and
      rec: "quant_loop ps msk mval Q (f32_dec mb) src' d1 = Inr data'"
      by (auto split: sum.splits)
    from st obtain j where j: "j < length data" and d1: "d1 = data[j := to_f32 ?v]"
      by (auto simp: store_f_def dest: py_index_Some_less split: option.splits)
    from Cons.IH [OF rec] have len: "length data' = length d1"
      and cl: "\<forall>i < length d1. data' ! i = d1 ! i \<or> \<not> flt (f32_dec mb) (data' ! i)"
      by auto
    have "data' ! i = data ! i \<or> \<not> flt (f32_dec mb) (data' ! i)" if "i < length data" for i
    proof (cases "i = j")
      case True
      with cl that d1 have "data' ! i = to_f32 ?v \<or> \<not> flt (f32_dec mb) (data' ! i)"
        by auto
      then show ?thesis using clamp_not_above [of mb "fadd mval (fmul Q (fint k))"] by auto
    next
      case False
      with cl that d1 show ?thesis by auto
    qed
    with len d1 show ?thesis by simp
  qed
qed

text \<open>
  C5 fails: a flag byte whose low six bits equal 3 selects the constant encoding with
  a stored minimum, which is written as such. The block \<open>const_blob\<close> has these bits
  and the minimum 5; with \<open>max_val = 1.0\<close> its pixel becomes 5.0.
\<close>

theorem mode_three_clamped_counterexample:
  "le_uint [0x83] AND 63 = 3
   \<and> unpack_from const_blob 0 1 = Inr [0x83]
   \<and> read_block [PFin 0] [0] [0] mask_clear (PFin 1) (PFin 1) const_blob 0 = Inr ([PFin 5], 2)
   \<and> flt (PFin 1) (PFin 5)"
  by (simp add: read_block_const_blob) (simp add: const_blob_def unpack_from_def)

text \<open>
  C5 as amended. For every block whose flag byte's low six bits equal 1 (bit 0 set,
  bit 1 clear: the quantized encoding) and every input buffer, when \<^verbatim>\<open>read_block\<close>
  returns, every sample of the grid either is the sample that was there before the
  call or does not exceed \<open>max_val\<close>; \<open>max_val\<close> is a binary32 value, as
  \<^verbatim>\<open>self.v_maxVal\<close> is.
\<close>

theorem quantized_block_clamped:
  assumes fb: "unpack_from blob offset 1 = Inr fb"
    and mode: "le_uint fb AND 63 = 1"
    and res: "read_block data rx ry msk Q (f32_dec mb) blob offset = Inr (data', offset')"
  shows "length data' = length data \<and>
         (\<forall>i < length data. data' ! i = data ! i \<or> \<not> flt (f32_dec mb) (data' ! i))"
proof -
  from res fb mode obtain mval src where
    "quant_loop (dloop rx ry) msk mval Q (f32_dec mb) src data = Inr data'"
    by (auto simp: read_block_def Let_def split: sum.splits option.splits)
  then show ?thesis by (rule quant_loop_clamped)
qed

theorem quantized_block_clamped_witness:
  "unpack_from quant_blob 0 1 = Inr [0x81]
   \<and> le_uint [0x81] AND 63 = 1
   \<and> read_block [PFin 0] [0] [0] mask_set (PFin 1) (f32_dec [0, 0, 0x80, 0x40]) quant_blob 0
       = Inr ([PFin 4], 5)
   \<and> \<not> flt (f32_dec [0, 0, 0x80, 0x40]) ([PFin 4] ! 0)"
proof -
  have fb: "unpack_from quant_blob 0 1 = Inr [0x81]"
    by (simp add: quant_blob_def unpack_from_def)
  have mode: "le_uint [0x81] AND 63 = 1"
    by simp
  from quantized_block_clamped [OF fb mode read_block_quant_blob_clamped]
  have "[PFin 4] ! 0 = [PFin 0] ! 0 \<or> \<not> flt (f32_dec [0, 0, 0x80, 0x40]) ([PFin 4] ! 0)"
    by simp
  then show ?thesis
    using fb mode read_block_quant_blob_clamped by simp
qed

subsection \<open>Evaluating \<^verbatim>\<open>decode\<close> on the example blobs\<close>


lemma lerc_init_bad_sentinel_blob: "lerc_init bad_sentinel_blob = masked_session"
  by (simp add: lerc_init_def bad_sentinel_blob_def hdr_bytes_def magic_def unpack_from_def
      new_session_def unpack_IIIf_def f32_dec_def f64_dec_def ieee_dec_def fint_def
      round64_one masked_session_def)

lemma lerc_init_uniform_blob: "lerc_init uniform_blob = uniform_session"
  by (simp add: lerc_init_def uniform_blob_def hdr_bytes_def magic_def unpack_from_def
      new_session_def unpack_IIIf_def f32_dec_def f64_dec_def ieee_dec_def fint_def
      round64_one masked_session_def uniform_session_def)


lemma decode_RLE_bad_sentinel_blob: "decode_RLE bad_sentinel_blob 50 5 = Inr None"
  by code_simp

lemma py_range_eval:
  "py_range 0 2 2 = Inr [0]" "py_range 0 2 1 = Inr [0, 1]"
  by (simp_all add: py_range_def upt_rec)

lemma replicate_four: "replicate 4 x = [x, x, x, x]"
  by (simp add: numeral_eq_Suc)

text \<open>
  \<^verbatim>\<open>read_tiles\<close> on an object of a 2 by 2 image with one block whose bytes, at the start
  of the value-block stream, are \<open>0x83\<close> and 5.
\<close>

lemma read_tiles_one_constant_block:
  assumes "unpack_from blob (66 + nB) 1 = Inr [0x83]"
    and "unpack_from blob (67 + nB) 1 = Inr [5]"
  shows "read_tiles (masked_session\<lparr>m_nB := Some nB,
             lerc_mask := Some \<lparr>bm_w = 2, bm_h = 2, bm_data = bs\<rparr>\<rparr>) blob
         = Inr [PFin 5, PFin 5, PFin 5, PFin 5]"
  using assms
  by (simp add: read_tiles_def masked_session_def attr_def py_range_eval dloop_def
      read_block_def read_mval_def to_signed_def fint_def store_f_def py_index_def
      round32_numeral replicate_four)


lemma bad_sentinel_blob_block:
  "unpack_from bad_sentinel_blob (66 + 5) 1 = Inr [0x83]"
  "unpack_from bad_sentinel_blob (67 + 5) 1 = Inr [5]"
  by (simp_all add: bad_sentinel_blob_def hdr_bytes_def magic_def unpack_from_def)

lemma masked_session_m_nB: "masked_session\<lparr>m_nB := Some 5\<rparr> = masked_session"
  by (simp add: masked_session_def)


subsection \<open>The validity mask\<close>

lemma and_255_bit: "0 \<le> k \<Longrightarrow> k < 8 \<Longrightarrow> (255::int) AND drop_bit (nat k) 128 \<noteq> 0"
proof -
  assume "0 \<le> k" "k < 8"
  then have "k = 0 \<or> k = 1 \<or> k = 2 \<or> k = 3 \<or> k = 4 \<or> k = 5 \<or> k = 6 \<or> k = 7" by arith
  then show ?thesis by (elim disjE) (simp_all add: drop_bit_eq_div)
qed

lemma pixel_index_inside:
  assumes "0 \<le> x" "x < w" "0 \<le> y" "y < (h::int)"
  shows "0 \<le> y * w + x" "y * w + x < w * h"
proof -
  from assms show "0 \<le> y * w + x" by simp
  from assms have "(y + 1) * w \<le> h * w" by (intro mult_right_mono) auto
  with assms show "y * w + x < w * h" by (simp add: algebra_simps)
qed

lemma uniform_bitmask_at:
  assumes "0 \<le> x" "x < w" "0 \<le> y" "y < h"
  shows "bitmask_at \<lparr>bm_w = w, bm_h = h, bm_data = replicate (nat ((w * h + 7) div 8)) b\<rparr> x y
         = Inr (0 \<noteq> (uint b AND drop_bit (nat ((y * w + x) mod 8)) 128))"
proof -
  let ?l = "y * w + x"
  from pixel_index_inside [OF assms] have l: "0 \<le> ?l" "?l < w * h" .
  then have "?l div 8 < (w * h + 7) div 8" by linarith
  moreover from l have "0 \<le> ?l div 8" by simp
  ultimately show ?thesis
    by (simp add: bitmask_at_def py_index_def)
qed

lemma uniform_mask_python2:
  assumes s: "m_nB s = Some 0" "lerc_w s = Some w" "lerc_h s = Some h"
  shows "m_maxVal s = Some (PFin 1) \<Longrightarrow>
           \<exists>m. decode_mask Py2 s blob = Inr m \<and>
             (\<forall>x y. 0 \<le> x \<and> x < w \<and> 0 \<le> y \<and> y < h \<longrightarrow> bitmask_at m x y = Inr True)"
    and "m_maxVal s = Some (PFin 0) \<Longrightarrow>
           \<exists>m. decode_mask Py2 s blob = Inr m \<and>
             (\<forall>x y. 0 \<le> x \<and> x < w \<and> 0 \<le> y \<and> y < h \<longrightarrow> bitmask_at m x y = Inr False)"
proof -
  have r: "round64 255 = PFin 255" by (simp add: round64_numeral)
  have r0: "round64 0 = PFin 0" using round64_int [of 0] by simp
  {
    assume mv: "m_maxVal s = Some (PFin 1)"
    have "decode_mask Py2 s blob =
        Inr \<lparr>bm_w = w, bm_h = h, bm_data = replicate (nat ((w * h + 7) div 8)) 255\<rparr>"
      using s mv by (simp add: decode_mask_def attr_def fint_def r bitmask_init_def)
    moreover have "bitmask_at \<lparr>bm_w = w, bm_h = h,
        bm_data = replicate (nat ((w * h + 7) div 8)) 255\<rparr> x y = Inr True"
      if "0 \<le> x \<and> x < w \<and> 0 \<le> y \<and> y < h" for x y
      using that and_255_bit [of "(y * w + x) mod 8"] by (simp add: uniform_bitmask_at)
    ultimately show "\<exists>m. decode_mask Py2 s blob = Inr m \<and>
             (\<forall>x y. 0 \<le> x \<and> x < w \<and> 0 \<le> y \<and> y < h \<longrightarrow> bitmask_at m x y = Inr True)"
      by auto
  }
  {
    assume mv: "m_maxVal s = Some (PFin 0)"
    have "decode_mask Py2 s blob =
        Inr \<lparr>bm_w = w, bm_h = h, bm_data = replicate (nat ((w * h + 7) div 8)) 0\<rparr>"
      using s mv by (simp add: decode_mask_def attr_def fint_def r0 bitmask_init_def)
    moreover have "bitmask_at \<lparr>bm_w = w, bm_h = h,
        bm_data = replicate (nat ((w * h + 7) div 8)) 0\<rparr> x y = Inr False"
      if "0 \<le> x \<and> x < w \<and> 0 \<le> y \<and> y < h" for x y
      using that by (simp add: uniform_bitmask_at)
    ultimately show "\<exists>m. decode_mask Py2 s blob = Inr m \<and>
             (\<forall>x y. 0 \<le> x \<and> x < w \<and> 0 \<le> y \<and> y < h \<longrightarrow> bitmask_at m x y = Inr False)"
      by auto
  }
qed

lemma uniform_mask_python3:
  assumes "m_nB s = Some 0" "lerc_w s = Some w" "lerc_h s = Some h"
    and "m_maxVal s = Some (PFin 1) \<or> m_maxVal s = Some (PFin 0)"
  shows "decode_mask Py3 s blob = Inl TypeError"
proof -
  have r: "round64 255 = PFin 255" by (simp add: round64_numeral)
  have r0: "round64 0 = PFin 0" using round64_int [of 0] by simp
  show ?thesis
    using assms by (auto simp: decode_mask_def attr_def fint_def r r0 bitmask_init_def)
qed

text \<open>
  C8 holds where \<^verbatim>\<open>/\<close> on integers is the floor division (\<open>uniform_mask_python2\<close>). Under
  Python 3 the size \<^verbatim>\<open>sz = (w * h + 7) / 8\<close> is a float and \<^verbatim>\<open>(val,) * sz\<close> raises
  \<^verbatim>\<open>TypeError\<close>: for the blob \<open>uniform_blob\<close>, whose mask descriptor has no bytes and the
  fill value 1.0, no mask is built and \<^verbatim>\<open>decode\<close> raises. Every other division of the
  module is written \<^verbatim>\<open>//\<close>.
\<close>

theorem uniform_mask_python3_raises:
  "lerc_valid (lerc_init uniform_blob)
   \<and> m_nB (lerc_init uniform_blob) = Some 0
   \<and> m_maxVal (lerc_init uniform_blob) = Some (PFin 1)
   \<and> decode_mask Py3 (lerc_init uniform_blob) uniform_blob = Inl TypeError
   \<and> decode Py3 (lerc_init uniform_blob) uniform_blob = (lerc_init uniform_blob, Inl TypeError)"
proof -
  have s: "m_nB uniform_session = Some 0" "lerc_w uniform_session = Some 2"
    "lerc_h uniform_session = Some 2" "m_maxVal uniform_session = Some (PFin 1)"
    "lerc_valid uniform_session" "lerc_mask uniform_session = None"
    by (simp_all add: uniform_session_def masked_session_def)
  have "decode_mask Py3 uniform_session uniform_blob = Inl TypeError"
    using s by (intro uniform_mask_python3) auto
  then show ?thesis
    using s by (simp add: lerc_init_uniform_blob decode_def)
qed

text \<open>
  C3 fails on the code: with the end marker of the mask region overwritten,
  \<^verbatim>\<open>decode_RLE\<close> returns \<^verbatim>\<open>None\<close>, and \<^verbatim>\<open>decode_mask\<close> hands this \<^verbatim>\<open>None\<close> to the
  \<^verbatim>\<open>bitmask\<close> constructor as \<^verbatim>\<open>data\<close>, where it selects the default fill. Under Python 3
  the constructor raises \<^verbatim>\<open>TypeError\<close>, which \<^verbatim>\<open>decode\<close> does not catch; under Python 2
  it builds a mask of all ones and \<^verbatim>\<open>decode\<close> returns a sample array.
\<close>

theorem corrupted_sentinel_decode:
  "decode_RLE bad_sentinel_blob 50 5 = Inr None
   \<and> lerc_valid (lerc_init bad_sentinel_blob)
   \<and> decode Py3 (lerc_init bad_sentinel_blob) bad_sentinel_blob
       = (lerc_init bad_sentinel_blob, Inl TypeError)
   \<and> decode Py2 (lerc_init bad_sentinel_blob) bad_sentinel_blob
       = ((lerc_init bad_sentinel_blob)
            \<lparr>lerc_mask := Some \<lparr>bm_w = 2, bm_h = 2, bm_data = [255]\<rparr>\<rparr>,
          Inr (Some [PFin 5, PFin 5, PFin 5, PFin 5]))"
proof -
  have v: "lerc_valid masked_session" "lerc_mask masked_session = None"
    by (simp_all add: masked_session_def)
  have m3: "decode_mask Py3 masked_session bad_sentinel_blob = Inl TypeError"
    by (simp add: decode_mask_def masked_session_def attr_def decode_RLE_bad_sentinel_blob
        bitmask_init_def)
  have m2: "decode_mask Py2 masked_session bad_sentinel_blob
              = Inr \<lparr>bm_w = 2, bm_h = 2, bm_data = [255]\<rparr>"
    by (simp add: decode_mask_def masked_session_def attr_def decode_RLE_bad_sentinel_blob
        bitmask_init_def)
  from read_tiles_one_constant_block [OF bad_sentinel_blob_block, of "[255]"]
  have t: "read_tiles (masked_session\<lparr>lerc_mask := Some \<lparr>bm_w = 2, bm_h = 2, bm_data = [255]\<rparr>\<rparr>)
          bad_sentinel_blob = Inr [PFin 5, PFin 5, PFin 5, PFin 5]"
    by (simp add: masked_session_m_nB)
  show ?thesis
    by (simp add: lerc_init_bad_sentinel_blob decode_RLE_bad_sentinel_blob decode_def v m3 m2 t)
qed

subsection \<open>What \<^verbatim>\<open>decode\<close> does to the object\<close>











subsection \<open>Packing and unpacking\<close>

lemma take_bit_OR_zero:
  "take_bit k (a::int) = 0 \<Longrightarrow> take_bit k b = 0 \<Longrightarrow> take_bit k (a OR b) = 0"
  by (simp add: take_bit_or)   

lemma take_bit_le_zero:
  "take_bit k (a::int) = 0 \<Longrightarrow> j \<le> k \<Longrightarrow> take_bit j a = 0"
  by (metis min.absorb1 take_bit_0 take_bit_take_bit take_bit_of_0)

lemma drop_bit_small: "0 \<le> (x::int) \<Longrightarrow> x < 2 ^ n \<Longrightarrow> drop_bit n x = 0"
  by (simp add: drop_bit_eq_div)

lemma pack_loop_nonempty: "pack_loop n bl acc xs \<noteq> []"
  by (induction xs arbitrary: bl acc) auto

text \<open>The bits of the first word above the free ones are those already in \<open>acc\<close>.\<close>

lemma pack_loop_hd:
  assumes "\<forall>x \<in> set xs. 0 \<le> x \<and> x < 2 ^ n"
  shows "drop_bit bl (hd (pack_loop n bl acc xs)) = drop_bit bl acc"
  using assms
proof (induction xs arbitrary: bl acc)
  case Nil
  then show ?case by simp
next
  case (Cons x xs)
  from Cons.prems have x: "0 \<le> x" "x < 2 ^ n" by auto
  show ?case
  proof (cases "n \<le> bl")
    case True
    let ?acc = "acc OR push_bit (bl - n) x"
    let ?h = "hd (pack_loop n (bl - n) ?acc xs)"
    from Cons have ih: "drop_bit (bl - n) ?h = drop_bit (bl - n) ?acc" by simp
    have "drop_bit bl ?h = drop_bit n (drop_bit (bl - n) ?h)"
      using True by (simp add: drop_bit_drop_bit)
    also have "\<dots> = drop_bit n (drop_bit (bl - n) ?acc)" by (simp only: ih)
    also have "\<dots> = drop_bit bl ?acc" using True by (simp add: drop_bit_drop_bit)
    also have "\<dots> = drop_bit bl acc OR drop_bit bl (push_bit (bl - n) x)"
      by (simp add: drop_bit_or)      
    also have "drop_bit bl (push_bit (bl - n) x) = drop_bit n x"
      using True by (simp add: drop_bit_push_bit)
    also have "drop_bit n x = 0" using x by (rule drop_bit_small)
    finally show ?thesis using True by simp
  next
    case False
    have "drop_bit bl (acc OR drop_bit (n - bl) x) = drop_bit bl acc OR drop_bit bl (drop_bit (n - bl) x)"
      by (simp add: drop_bit_or)
    also have "drop_bit bl (drop_bit (n - bl) x) = drop_bit n x"
      using False by (simp add: drop_bit_drop_bit)
    also have "drop_bit n x = 0" using x by (rule drop_bit_small)
    finally show ?thesis using False by simp
  qed
qed

text \<open>Unpacking what \<open>pack_loop\<close> packed gives the values back.\<close>

lemma qval_loop_pack_loop:
  assumes "\<forall>x \<in> set xs. 0 \<le> x \<and> x < 2 ^ n" and "0 < n" and "n \<le> 32" and "bl \<le> 32"
    and "take_bit bl acc = 0"
    and "pack_loop n bl acc xs = w # ws"
  shows "qval_loop (int n) (int bl) w ws (length xs) = Inr xs"
  using assms
proof (induction xs arbitrary: bl acc w ws)
  case Nil
  then show ?case by simp
next
  case (Cons x xs)
  from Cons.prems(1) have x: "0 \<le> x" "x < 2 ^ n"
    and xs: "\<forall>x \<in> set xs. 0 \<le> x \<and> x < 2 ^ n" by auto
  have msk: "push_bit n 1 - 1 = (mask n :: int)" "2 ^ n - 1 = (mask n :: int)"
    by (simp_all add: mask_eq_exp_minus_1)
  have x32: "x < 2 ^ 32"
  proof -
    have "(2::int) ^ n \<le> 2 ^ 32" using Cons.prems(3) by (intro power_increasing) auto
    with x show ?thesis by linarith
  qed
  have tx: "take_bit n x = x" using x by (simp add: take_bit_int_eq_self)
  show ?case
  proof (cases "n \<le> bl")
    case True
    let ?acc = "acc OR push_bit (bl - n) x"
    from Cons.prems(6) True have pl: "pack_loop n (bl - n) ?acc xs = w # ws" by simp
    have z1: "take_bit (bl - n) acc = 0"
      using Cons.prems(5) by (rule take_bit_le_zero) simp
    have z2: "take_bit (bl - n) (push_bit (bl - n) x) = 0"
      by (simp add: take_bit_push_bit)
    have z: "take_bit (bl - n) ?acc = 0"
      using z1 z2 by (rule take_bit_OR_zero)
    from Cons.IH [OF xs Cons.prems(2,3) _ z pl] Cons.prems(4)
    have ih: "qval_loop (int n) (int (bl - n)) w ws (length xs) = Inr xs" by simp
    from pack_loop_hd [OF xs, of "bl - n" ?acc] pl
    have "drop_bit (bl - n) w = drop_bit (bl - n) ?acc" by simp
    also have "\<dots> = drop_bit (bl - n) acc OR x" by (simp add: drop_bit_or drop_bit_push_bit)
    finally have "take_bit n (drop_bit (bl - n) w) = take_bit n (drop_bit (bl - n) acc) OR x"
      by (simp add: take_bit_or tx)
    moreover have "take_bit n (drop_bit (bl - n) acc) = drop_bit (bl - n) (take_bit bl acc)"
      using True by (simp add: drop_bit_take_bit)
    ultimately have v: "take_bit n (drop_bit (bl - n) w) = x"
      using Cons.prems(5) by simp
    have "mask n AND drop_bit (bl - n) w = x"
      using v by (simp add: mask_AND_take_bit)
    then show ?thesis
      using True ih x x32
      by (simp add: msk store_I_def of_nat_diff nat_diff_distrib)
  next
    case False
    let ?bl' = "bl + 32 - n"
    let ?acc' = "take_bit 32 (push_bit ?bl' x) :: int"
    from Cons.prems(6) False have w: "w = acc OR drop_bit (n - bl) x"
      and wsq: "ws = pack_loop n ?bl' ?acc' xs" by simp_all
    obtain w' ws' where pl: "pack_loop n ?bl' ?acc' xs = w' # ws'"
      using pack_loop_nonempty [of n ?bl' ?acc' xs]
      by (cases "pack_loop n ?bl' ?acc' xs") auto
    with wsq have ws: "ws = w' # ws'" by simp
    have bl': "?bl' \<le> 32" using False by simp
    have z: "take_bit ?bl' ?acc' = 0"
      by (simp add: take_bit_push_bit)
    from Cons.IH [OF xs Cons.prems(2,3) bl' z pl]
    have ih: "qval_loop (int n) (int ?bl') w' ws' (length xs) = Inr xs" .
    have nb: "n = (n - bl) + bl" using False by simp
    have "take_bit bl w = take_bit bl (drop_bit (n - bl) x)"
      using Cons.prems(5) by (simp add: w take_bit_or)
    also have "\<dots> = drop_bit (n - bl) (take_bit n x)"
      using False by (simp add: drop_bit_take_bit)
    finally have tw: "take_bit bl w = drop_bit (n - bl) x" by (simp add: tx)
    have "mask n AND push_bit (n - bl) w = take_bit n (push_bit (n - bl) w)"
      by (simp add: mask_AND_take_bit)
    also have "\<dots> = push_bit (n - bl) (take_bit bl w)"
      using False by (simp add: take_bit_push_bit)
    finally have vtmp: "mask n AND push_bit (n - bl) w = push_bit (n - bl) (drop_bit (n - bl) x)"
      by (simp add: tw)
    from pack_loop_hd [OF xs, of ?bl' ?acc'] pl
    have "drop_bit ?bl' w' = drop_bit ?bl' ?acc'" by simp
    also have "\<dots> = take_bit (32 - ?bl') (drop_bit ?bl' (push_bit ?bl' x))"
      by (simp add: drop_bit_take_bit)
    also have "\<dots> = take_bit (n - bl) x"
      using False Cons.prems(3) by (simp add: drop_bit_push_bit)
    finally have low: "drop_bit ?bl' w' = take_bit (n - bl) x" .
    have sum: "push_bit (n - bl) (drop_bit (n - bl) x) + take_bit (n - bl) x = x"
      by (rule bits_ident)
    have i1: "nat (int n - int bl) = n - bl" "nat (int bl + 32 - int n) = ?bl'"
      using False Cons.prems(3) by simp_all
    have i2: "int bl + 32 - int n = int ?bl'" using False Cons.prems(3) by simp
    show ?thesis
      using False ih x x32 sum
      by (simp add: msk ws store_I_def i1 i2 vtmp low)
  qed
qed


text \<open>Bit accounting: the words hold the bits used before, the new bits and the free rest.\<close>

lemma pack_loop_account:
  assumes "0 < n" "n \<le> 32" "bl \<le> 32" "take_bit bl acc = 0"
  shows "\<exists>fb. fb \<le> 32 \<and> (xs \<noteq> [] \<longrightarrow> fb < 32)
           \<and> 32 * length (pack_loop n bl acc xs) = length xs * n + (32 - bl) + fb
           \<and> take_bit fb (last (pack_loop n bl acc xs)) = 0"
  using assms
proof (induction xs arbitrary: bl acc)
  case Nil
  then show ?case by (intro exI [of _ bl]) simp
next
  case (Cons x xs)
  show ?case
  proof (cases "n \<le> bl")
    case True
    let ?acc = "acc OR push_bit (bl - n) x"
    have z1: "take_bit (bl - n) acc = 0"
      using Cons.prems(4) by (rule take_bit_le_zero) simp
    have z2: "take_bit (bl - n) (push_bit (bl - n) x) = 0"
      by (simp add: take_bit_push_bit)
    have z: "take_bit (bl - n) ?acc = 0"
      using z1 z2 by (rule take_bit_OR_zero)
    have b: "bl - n \<le> 32" using Cons.prems(3) by simp
    from Cons.IH [OF Cons.prems(1,2) b z] obtain fb where
      fb: "fb \<le> 32" "xs \<noteq> [] \<longrightarrow> fb < 32"
        "32 * length (pack_loop n (bl - n) ?acc xs) = length xs * n + (32 - (bl - n)) + fb"
        "take_bit fb (last (pack_loop n (bl - n) ?acc xs)) = 0"
      by blast
    have "fb < 32"
    proof (cases xs)
      case Nil
      with fb(3) True Cons.prems(1,3) show ?thesis by simp
    next
      case (Cons a list)
      with fb(2) show ?thesis by simp
    qed
    with fb True Cons.prems(3) show ?thesis
      by (intro exI [of _ fb]) (simp add: algebra_simps)
  next
    case False
    let ?bl' = "bl + 32 - n"
    let ?acc' = "take_bit 32 (push_bit ?bl' x) :: int"
    have b: "?bl' \<le> 32" using False by simp
    have z: "take_bit ?bl' ?acc' = 0" by (simp add: take_bit_push_bit)
    from Cons.IH [OF Cons.prems(1,2) b z] obtain fb where
      fb: "fb \<le> 32" "xs \<noteq> [] \<longrightarrow> fb < 32"
        "32 * length (pack_loop n ?bl' ?acc' xs) = length xs * n + (32 - ?bl') + fb"
        "take_bit fb (last (pack_loop n ?bl' ?acc' xs)) = 0"
      by blast
    have "fb < 32"
    proof (cases xs)
      case Nil
      with fb(3) False Cons.prems(1,2,3) show ?thesis by simp
    next
      case (Cons a list)
      with fb(2) show ?thesis by simp
    qed
    with fb False Cons.prems(2,3) pack_loop_nonempty [of n ?bl' ?acc' xs] show ?thesis
      by (intro exI [of _ fb]) (simp add: algebra_simps)
  qed
qed

lemma pack_loop_bound:
  assumes "\<forall>x \<in> set xs. 0 \<le> x \<and> x < 2 ^ n" "n \<le> 32" "bl \<le> 32" "0 \<le> acc" "acc < 2 ^ 32"
  shows "\<forall>w \<in> set (pack_loop n bl acc xs). 0 \<le> w \<and> w < 2 ^ 32"
  using assms
proof (induction xs arbitrary: bl acc)
  case Nil
  then show ?case by simp
next
  case (Cons x xs)
  from Cons.prems(1) have x: "0 \<le> x" "x < 2 ^ n"
    and xs: "\<forall>x \<in> set xs. 0 \<le> x \<and> x < 2 ^ n" by auto
  show ?case
  proof (cases "n \<le> bl")
    case True
    have "push_bit (bl - n) x < 2 ^ ((bl - n) + n)"
      using x by (simp add: push_bit_eq_mult power_add)
    also have "\<dots> \<le> 2 ^ 32" using True Cons.prems(3) by (intro power_increasing) auto
    finally have a1: "acc OR push_bit (bl - n) x < 2 ^ 32"
      using Cons.prems(4,5) by (intro OR_upper) auto
    have a0: "0 \<le> acc OR push_bit (bl - n) x" using Cons.prems(4) x by simp
    have b: "bl - n \<le> 32" using Cons.prems(3) by simp
    from Cons.IH [OF xs Cons.prems(2) b a0 a1] True show ?thesis by simp
  next
    case False
    have "n = (n - bl) + bl" using False by simp
    with x have "drop_bit (n - bl) x < 2 ^ bl" by (intro drop_bit_bound) auto
    also have "(2::int) ^ bl \<le> 2 ^ 32" using Cons.prems(3) by (intro power_increasing) auto
    finally have a1: "acc OR drop_bit (n - bl) x < 2 ^ 32"
      using Cons.prems(4,5) by (intro OR_upper) auto
    have a0: "0 \<le> acc OR drop_bit (n - bl) x" using Cons.prems(4) x by simp
    have b: "bl + 32 - n \<le> 32" using False by simp
    have t: "0 \<le> take_bit 32 (push_bit (bl + 32 - n) x)"
      "take_bit 32 (push_bit (bl + 32 - n) x) < (2::int) ^ 32"
      by (simp, rule take_bit_int_less_exp)
    from Cons.IH [OF xs Cons.prems(2) b t] a0 a1 False show ?thesis by simp
  qed
qed

lemma le_bytes_4:
  "le_bytes 4 w = [word_of_int w, word_of_int (w div 256), word_of_int (w div 256 div 256),
                   word_of_int (w div 256 div 256 div 256)]"
  by (simp add: numeral_eq_Suc)

lemma length_le_bytes: "length (le_bytes k v) = k"
  by (induction k arbitrary: v) auto

lemma uint_byte_of_int: "uint (word_of_int v :: byte) = v mod 256"
  by (simp add: uint_word_of_int_eq take_bit_eq_mod)

lemma le_uint_le_bytes:
  "0 \<le> v \<Longrightarrow> v < 2 ^ (8 * k) \<Longrightarrow> le_uint (le_bytes k v) = v"
proof (induction k arbitrary: v)
  case 0
  then show ?case by simp
next
  case (Suc k)
  from Suc.prems have "v < 2 ^ (8 + 8 * k)" by simp
  with Suc.prems(1) have "drop_bit 8 v < 2 ^ (8 * k)" by (rule drop_bit_bound)
  then have "v div 256 < 2 ^ (8 * k)" by (simp add: drop_bit_eq_div)
  moreover from Suc.prems have "0 \<le> v div 256" by simp
  ultimately have "le_uint (le_bytes k (v div 256)) = v div 256" by (rule Suc.IH [rotated])
  then show ?case by (simp add: uint_byte_of_int)
qed

lemma words32_append4:
  "length bs = 4 \<Longrightarrow> words32 (bs @ rest) = le_uint bs # words32 rest"
  by (cases bs rule: words32.cases) auto

lemma words32_concat:
  "\<forall>w \<in> set ws. 0 \<le> w \<and> w < 2 ^ 32 \<Longrightarrow> words32 (concat (map (le_bytes 4) ws)) = ws"
proof (induction ws)
  case Nil
  then show ?case by simp
next
  case (Cons w ws)
  then have "le_uint (le_bytes 4 w) = w" by (intro le_uint_le_bytes) auto
  with Cons show ?case by (simp add: words32_append4 length_le_bytes)
qed

lemma le_bytes_4_bits:
  "le_bytes 4 w = [word_of_int w, word_of_int (drop_bit 8 w), word_of_int (drop_bit 16 w),
                   word_of_int (drop_bit 24 w)]"
proof -
  have "w div 256 div 256 = w div 65536" using zdiv_zmult2_eq [of 256 w 256] by simp
  moreover have "w div 65536 div 256 = w div 16777216"
    using zdiv_zmult2_eq [of 256 w 65536] by simp
  ultimately show ?thesis by (simp add: le_bytes_4 drop_bit_eq_div)
qed

lemma upt_small: "[0..<1] = [0]" "[0..<2] = [0, 1]" "[0..<3] = [0, 1, 2]"
  by (simp_all add: upt_rec)

lemma byte_term_bit:
  "bit (push_bit (8 * k) (uint (word_of_int (drop_bit (8 * k) w) :: byte))) i
     \<longleftrightarrow> 8 * k \<le> i \<and> i < 8 * k + 8 \<and> bit w i"
  by (auto simp: bit_simps)

lemma v8_of_stored:
  assumes w: "0 \<le> w" "w < 2 ^ 32" and e: "e = 1 \<or> e = 2 \<or> e = 3"
    and z: "take_bit (8 * (4 - nat e)) w = 0"
  shows "v8_of e (drop (4 - nat e) (le_bytes 4 w)) = w"
proof -
  have "take_bit 32 w = w" using w by (simp add: take_bit_int_eq_self)
  then have hi: "i < 32" if "bit w i" for i
    using that by (metis bit_take_bit_iff)
  have lo: "8 * (4 - nat e) \<le> i" if "bit w i" for i
  proof (rule ccontr)
    assume "\<not> 8 * (4 - nat e) \<le> i"
    with that have "bit (take_bit (8 * (4 - nat e)) w) i" by (simp add: bit_take_bit_iff)
    with z show False by simp
  qed
  note b1 = byte_term_bit [of 1 w, simplified] and b2 = byte_term_bit [of 2 w, simplified]
    and b3 = byte_term_bit [of 3 w, simplified]
  from e show ?thesis
  proof (elim disjE)
    assume e: "e = 1"
    note l = lo [unfolded e, simplified]
    have v: "v8_of 1 (drop (4 - nat 1) (le_bytes 4 w))
               = push_bit 24 (uint (word_of_int (drop_bit 24 w) :: byte))"
      by (simp add: v8_of_def le_bytes_4_bits upt_small)
    show ?thesis
      unfolding e v by (rule bit_eqI) (auto simp: b3 dest: l hi)
  next
    assume e: "e = 2"
    note l = lo [unfolded e, simplified]
    have v: "v8_of 2 (drop (4 - nat 2) (le_bytes 4 w))
               = push_bit 16 (uint (word_of_int (drop_bit 16 w) :: byte))
                 OR push_bit 24 (uint (word_of_int (drop_bit 24 w) :: byte))"
      by (simp add: v8_of_def le_bytes_4_bits upt_small)
    have "bit w i \<longleftrightarrow> (16 \<le> i \<and> i < 24 \<and> bit w i) \<or> (24 \<le> i \<and> i < 32 \<and> bit w i)" for i
      using l [of i] hi [of i] by (cases "bit w i") auto
    then show ?thesis
      unfolding e v by (intro bit_eqI) (simp add: bit_or_iff b2 b3)
  next
    assume e: "e = 3"
    note l = lo [unfolded e, simplified]
    have v: "v8_of 3 (drop (4 - nat 3) (le_bytes 4 w))
               = (push_bit 8 (uint (word_of_int (drop_bit 8 w) :: byte))
                 OR push_bit 16 (uint (word_of_int (drop_bit 16 w) :: byte)))
                 OR push_bit 24 (uint (word_of_int (drop_bit 24 w) :: byte))"
      by (simp add: v8_of_def le_bytes_4_bits upt_small)
    have "bit w i \<longleftrightarrow> (8 \<le> i \<and> i < 16 \<and> bit w i) \<or> (16 \<le> i \<and> i < 24 \<and> bit w i)
            \<or> (24 \<le> i \<and> i < 32 \<and> bit w i)" for i
      using l [of i] hi [of i] by (cases "bit w i") auto
    then show ?thesis
      unfolding e v by (intro bit_eqI) (simp add: bit_or_iff b1 b2 b3)
  qed
qed

lemma unpack_from_middle:
  "unpack_from (a @ b @ c) (int (length a)) (int (length b)) = Inr b"
  by (simp add: unpack_from_def)

lemma pack_arith_int:
  fixes W T fb N q e r :: int
  assumes "32 * W = T + fb" "0 \<le> fb" "fb < 32" "T + 7 = 8 * N + r" "0 \<le> r" "r < 8"
    "N = 4 * q + e" "0 \<le> e" "e < 4"
  shows "e = 0 \<Longrightarrow> N = 4 * W"
    and "e \<noteq> 0 \<Longrightarrow> N = 4 * (W - 1) + e \<and> 8 * (4 - e) \<le> fb"
proof -
  have k: "32 * (W - q) = fb - 7 + 8 * e + r" using assms by (simp add: algebra_simps)
  {
    assume "e = 0"
    with k assms have "- 32 < 32 * (W - q)" "32 * (W - q) < 32" by simp_all
    then have "W - q = 0" by simp
    with assms \<open>e = 0\<close> show "N = 4 * W" by simp
  }
  {
    assume "e \<noteq> 0"
    with k assms have "0 < 32 * (W - q)" "32 * (W - q) < 64" by simp_all
    then have "W - q = 1" by simp
    with k assms show "N = 4 * (W - 1) + e \<and> 8 * (4 - e) \<le> fb" by simp
  }
qed

lemma read_values32_packed:
  assumes n: "0 < n" "n \<le> 32" and xs: "xs \<noteq> []" "\<forall>x \<in> set xs. 0 \<le> x \<and> x < 2 ^ n"
    and nbytes: "nbytes = (length xs * n + 7) div 8"
    and body: "body = concat (map (le_bytes 4) (butlast (pack_words n xs)))
         @ drop (if nbytes mod 4 = 0 then 0 else 4 - nbytes mod 4)
             (le_bytes 4 (last (pack_words n xs)))"
  shows "read_values32 (pre @ body) (int (length pre)) (int nbytes)
           = Inr (pack_words n xs, int (length pre) + int nbytes)
         \<and> length body = nbytes"
proof -
  let ?ws = "pack_words n xs"
  let ?W = "length ?ws"
  let ?T = "length xs * n"
  let ?e = "nbytes mod 4"
  have ws: "?ws = pack_loop n 32 0 xs" using xs(1) by (simp add: pack_words_def)
  have ne: "?ws \<noteq> []" by (simp add: ws pack_loop_nonempty)
  from pack_loop_account [OF n, of 32 0 xs] xs(1) obtain fb where
    fb: "fb < 32" "32 * ?W = ?T + fb" "take_bit fb (last ?ws) = 0"
    by (auto simp: ws)
  have bnd: "\<forall>w \<in> set ?ws. 0 \<le> w \<and> w < 2 ^ 32"
    unfolding ws using xs(2) n(2) by (intro pack_loop_bound) auto
  then have lw: "0 \<le> last ?ws" "last ?ws < 2 ^ 32" using ne by (auto dest: last_in_set)
  have bl: "\<forall>w \<in> set (butlast ?ws). 0 \<le> w \<and> w < 2 ^ 32"
    using bnd by (auto dest: in_set_butlastD)
  have split: "butlast ?ws @ [last ?ws] = ?ws" using ne by simp
  have lenb: "length (concat (map (le_bytes 4) vs)) = 4 * length vs" for vs
    by (induction vs) (auto simp: length_le_bytes)
  define NB where "NB = int nbytes"
  have NB: "NB = (int ?T + 7) div 8" unfolding NB_def nbytes by (simp add: zdiv_int)
  have ar: "32 * int ?W = int ?T + int fb" "0 \<le> int fb" "int fb < 32"
    "int ?T + 7 = 8 * NB + (int ?T + 7) mod 8" "0 \<le> (int ?T + 7) mod 8" "(int ?T + 7) mod 8 < 8"
    "NB = 4 * (NB div 4) + NB mod 4" "0 \<le> NB mod 4" "NB mod 4 < 4"
    using fb(1,2) by (simp_all add: NB) (metis of_nat_add of_nat_mult of_nat_numeral)
  have em: "int ?e = NB mod 4" by (simp add: NB_def zmod_int)
  show ?thesis
  proof (cases "?e = 0")
    case True
    then have "NB mod 4 = 0" using em by simp
    from pack_arith_int(1) [OF ar this] have nb: "nbytes = 4 * ?W"
      unfolding NB_def by linarith
    have "body = concat (map (le_bytes 4) (butlast ?ws @ [last ?ws]))"
      using True by (simp add: body)
    then have b: "body = concat (map (le_bytes 4) ?ws)" by (simp only: split)
    then have len: "length body = nbytes" by (simp add: lenb nb)
    have "unpack_from (pre @ body @ []) (int (length pre)) (int (length body)) = Inr body"
      by (rule unpack_from_middle)
    then have u: "unpack_from (pre @ body) (int (length pre)) (int nbytes) = Inr body"
      by (simp add: len)
    have d4: "int nbytes div 4 * 4 = int nbytes" by (simp add: nb)
    have w32: "words32 body = ?ws" unfolding b using bnd by (rule words32_concat)
    have "read_values32 (pre @ body) (int (length pre)) (int nbytes)
           = Inr (pack_words n xs, int (length pre) + int nbytes)"
      unfolding read_values32_def Let_def d4 u
      by (simp add: w32)
    with len show ?thesis by simp
  next
    case False
    then have "NB mod 4 \<noteq> 0" using em by simp
    from pack_arith_int(2) [OF ar this]
    have nbi: "NB = 4 * (int ?W - 1) + NB mod 4" and lowi: "8 * (4 - NB mod 4) \<le> int fb"
      by simp_all
    have e: "0 < ?e" "?e < 4" using False by simp_all
    have W: "0 < ?W" using ne by simp
    have nb: "nbytes = 4 * (?W - 1) + ?e"
      using nbi W em unfolding NB_def by (simp add: of_nat_diff)
    have "int (8 * (4 - ?e)) \<le> int fb"
      using lowi e by (simp add: of_nat_diff em [symmetric])
    then have low: "8 * (4 - ?e) \<le> fb" by (simp only: of_nat_le_iff)
    let ?b1 = "concat (map (le_bytes 4) (butlast ?ws))"
    let ?b2 = "drop (4 - ?e) (le_bytes 4 (last ?ws))"
    have b: "body = ?b1 @ ?b2" using False by (simp add: body)
    have l1: "length ?b1 = 4 * (?W - 1)" by (simp add: lenb)
    have l2: "length ?b2 = ?e" using e by (simp add: length_le_bytes)
    have nint: "int nbytes div 4 = int (?W - 1)"
    proof -
      have "nbytes div 4 = ?W - 1" using nb e by simp
      then show ?thesis by (metis of_nat_numeral zdiv_int)
    qed
    have "unpack_from (pre @ ?b1 @ ?b2) (int (length pre)) (int (length ?b1)) = Inr ?b1"
      by (rule unpack_from_middle)
    then have u1: "unpack_from (pre @ body) (int (length pre)) (int (?W - 1) * 4) = Inr ?b1"
      by (simp add: b l1 mult.commute)
    have q1: "(pre @ ?b1) @ ?b2 @ [] = pre @ body" by (simp add: b)
    have q2: "int (length (pre @ ?b1)) = int (length pre) + int (?W - 1) * 4"
      by (simp add: l1)
    have q3: "int (length ?b2) = int ?e" by (simp only: l2)
    have u2: "unpack_from (pre @ body) (int (length pre) + int (?W - 1) * 4) (int ?e)
            = Inr ?b2"
      using unpack_from_middle [of "pre @ ?b1" ?b2 "[]"] unfolding q1 q2 q3 .
    have ex: "int nbytes - int (?W - 1) * 4 = int ?e"
      using nb by linarith
    have z: "take_bit (8 * (4 - nat (int ?e))) (last ?ws) = 0"
    proof (rule take_bit_le_zero [OF fb(3)])
      show "8 * (4 - nat (int ?e)) \<le> fb" using low by simp
    qed
    have "int ?e = 1 \<or> int ?e = 2 \<or> int ?e = 3" using e by auto
    from v8_of_stored [OF lw this z] have v8: "v8_of (int ?e) ?b2 = last ?ws" by simp
    have w32: "words32 ?b1 = butlast ?ws" using bl by (rule words32_concat)
    have "read_values32 (pre @ body) (int (length pre)) (int nbytes)
            = Inr (butlast ?ws @ [last ?ws], int (length pre) + int (?W - 1) * 4 + int ?e)"
      using e unfolding read_values32_def Let_def nint u1 ex u2
      by (simp only: sum.case w32 v8) simp
    also have "int (length pre) + int (?W - 1) * 4 + int ?e = int (length pre) + int nbytes"
      using ex by simp
    finally have "read_values32 (pre @ body) (int (length pre)) (int nbytes)
            = Inr (?ws, int (length pre) + int nbytes)" by (simp only: split)
    moreover have "length body = nbytes" unfolding b using l1 l2 nb by simp
    ultimately show ?thesis by simp
  qed
qed

lemma header_byte:
  assumes "bc = 0 \<or> bc = 1 \<or> bc = (2::int)" "0 \<le> n" "n < (64::int)"
  shows "le_uint [word_of_int (bc * 64 + n)] = bc * 64 + n"
    and "drop_bit 6 (bc * 64 + n) = bc"
    and "(bc * 64 + n) AND 63 = n"
proof -
  have "(63::int) = mask 6" by (simp add: mask_eq_exp_minus_1)
  then have "(bc * 64 + n) AND 63 = take_bit 6 (bc * 64 + n)"
    by (simp only: take_bit_eq_mask)
  also have "\<dots> = n" using assms by (auto simp: take_bit_eq_mod)
  finally show "(bc * 64 + n) AND 63 = n" .
  show "drop_bit 6 (bc * 64 + n) = bc" using assms by (auto simp: drop_bit_eq_div)
  have "le_uint [word_of_int (bc * 64 + n)] = (bc * 64 + n) mod 256"
    unfolding le_uint.simps uint_byte_of_int by simp
  also have "\<dots> = bc * 64 + n" using assms by auto
  finally show "le_uint [word_of_int (bc * 64 + n)] = bc * 64 + n" .
qed

text \<open>
  Packing with the reference packer and unpacking with \<^verbatim>\<open>read_qval\<close> gives the values
  back, for every width from 1 to 32 bits and every non-empty sequence of values that
  fit the width; the offset returned is the end of the packed block.
\<close>

lemma read_qval_pack_qval:
  assumes n: "0 < n" "n \<le> 32" and xs: "xs \<noteq> []" "\<forall>x \<in> set xs. 0 \<le> x \<and> x < 2 ^ n"
    and len: "length xs < 2 ^ 32"
  shows "read_qval (pack_qval n xs) 0 = Inr (Some xs, int (length (pack_qval n xs)))"
proof -
  define count where "count = int (length xs)"
  define bc :: int where "bc = (if count < 256 then 2 else if count < 65536 then 1 else 0)"
  define csz :: nat where "csz = (if bc = 0 then 4 else if bc = 1 then 2 else 1)"
  define nbytes where "nbytes = (length xs * n + 7) div 8"
  define ws where "ws = pack_words n xs"
  define body where "body = concat (map (le_bytes 4) (butlast ws))
         @ drop (if nbytes mod 4 = 0 then 0 else 4 - nbytes mod 4) (le_bytes 4 (last ws))"
  define hb :: byte where "hb = word_of_int (bc * 64 + int n)"
  define cb where "cb = le_bytes csz count"
  have wsne: "ws \<noteq> []" using xs(1) by (simp add: ws_def pack_words_def pack_loop_nonempty)
  have blob: "pack_qval n xs = [hb] @ cb @ body"
    using wsne
    unfolding pack_qval_def Let_def hb_def cb_def csz_def bc_def count_def body_def ws_def
      nbytes_def
    by simp
  have bcs: "bc = 0 \<or> bc = 1 \<or> bc = 2" by (simp add: bc_def)
  have c0: "0 \<le> count" by (simp add: count_def)
  have c32: "count < 2 ^ 32" using len unfolding count_def
    by (metis of_nat_less_iff of_nat_numeral of_nat_power)
  have cc: "count < 2 ^ (8 * csz)"
    using c32 by (auto simp: csz_def bc_def split: if_splits)
  have lcb: "length cb = csz" by (simp add: cb_def length_le_bytes)
  have ccb: "le_uint cb = count" unfolding cb_def using c0 cc by (rule le_uint_le_bytes)
  have n64: "0 \<le> int n" "int n < 64" using n by simp_all
  note h = header_byte [OF bcs n64]
  have u0: "unpack_from (pack_qval n xs) 0 1 = Inr [hb]"
    using unpack_from_middle [of "[]" "[hb]" "cb @ body"] by (simp add: blob)
  have hbv: "le_uint [hb] = bc * 64 + int n" unfolding hb_def by (rule h(1))
  have nz: "int n \<noteq> 0" using n by simp
  have u1: "unpack_from (pack_qval n xs) 1 (int csz) = Inr cb"
    using unpack_from_middle [of "[hb]" cb body] by (simp add: blob lcb)
  have csz': "(if bc = 0 then 4 else if bc = 1 then 2 else 1) = int csz"
    by (simp add: csz_def)
  have hbu: "uint hb = bc * 64 + int n" using hbv by simp
  have rc: "read_count bc (pack_qval n xs) 1 = Inr (count, 1 + int csz)"
    using bcs by (auto simp: read_count_def Let_def csz' u1 ccb)
  have nbi: "(count * int n + 7) div 8 = int nbytes"
    unfolding nbytes_def count_def by (simp add: zdiv_int)
  have pre: "int (length ([hb] @ cb)) = 1 + int csz" by (simp add: lcb)
  have "read_values32 (([hb] @ cb) @ body) (int (length ([hb] @ cb))) (int nbytes)
          = Inr (pack_words n xs, int (length ([hb] @ cb)) + int nbytes)
        \<and> length body = nbytes"
    using n xs nbytes_def by (rule read_values32_packed) (simp add: body_def ws_def)
  then have rv: "read_values32 (pack_qval n xs) (1 + int csz) (int nbytes)
          = Inr (ws, 1 + int csz + int nbytes)" and lenb: "length body = nbytes"
    unfolding pre by (simp_all add: blob ws_def)
  obtain w ws' where wsq: "ws = w # ws'" using wsne by (cases ws) auto
  then have pl: "pack_loop n 32 0 xs = w # ws'" using xs(1) by (simp add: ws_def pack_words_def)
  have "qval_loop (int n) (int 32) w ws' (length xs) = Inr xs"
    using xs(2) n _ _ pl by (rule qval_loop_pack_loop) simp_all
  then have uv: "unpack_values (int n) count ws = Inr xs"
    by (simp add: unpack_values_def wsq count_def)
  have total: "int (length (pack_qval n xs)) = 1 + int csz + int nbytes"
    by (simp add: blob lcb lenb)
  show ?thesis
    unfolding read_qval_def u0 total
    using n(1) by (simp add: Let_def hbu h rc nbi rv uv)
qed

lemma read_qval_pack_qval_example:
  "read_qval (pack_qval 3 [5, 3, 1]) 0 = Inr (Some [5, 3, 1], int (length (pack_qval 3 [5, 3, 1])))"
  by (rule read_qval_pack_qval) simp_all

text \<open>The packed block of no values: the header byte and a zero count in one byte.\<close>

lemma pack_qval_empty: "pack_qval n [] = [word_of_int (2 * 64 + int n), 0]"
  by (simp add: pack_qval_def pack_words_def)

lemma read_qval_zero_count:
  assumes "0 < n" "n < 64"
  shows "read_qval (pack_qval n []) 0 = Inl StopIteration"
proof -
  have n: "0 \<le> int n" "int n < 64" using assms by simp_all
  have bc: "(2::int) = 0 \<or> (2::int) = 1 \<or> (2::int) = 2" by simp
  note h = header_byte [OF bc n]
  have u0: "unpack_from (pack_qval n []) 0 1 = Inr [word_of_int (2 * 64 + int n)]"
    by (simp add: pack_qval_empty unpack_from_def)
  have rc: "read_count 2 (pack_qval n []) 1 = Inr (0, 2)"
    by (simp add: read_count_def pack_qval_empty unpack_from_def)
  have rv: "read_values32 (pack_qval n []) 2 0 = Inr ([], 2)"
    by (simp add: read_values32_def pack_qval_empty unpack_from_def)
  show ?thesis
    unfolding read_qval_def u0
    using assms(1) h by (simp add: Let_def rc rv unpack_values_def)
qed

text \<open>
  C7 fails on the code for a count of zero: for each of the five widths of the claim
  the packed block of the empty sequence is the header byte followed by a zero count,
  \<^verbatim>\<open>values32\<close> is empty, and \<^verbatim>\<open>v = next(src)\<close> raises \<^verbatim>\<open>StopIteration\<close> before the loop
  over \<^verbatim>\<open>range(count)\<close> is reached. For every count from 1 on and every width up to
  32 the round trip holds (\<open>read_qval_pack_qval\<close>).
\<close>

theorem read_qval_zero_count_raises:
  "pack_qval 1 [] = [0x81, 0] \<and> read_qval (pack_qval 1 []) 0 = Inl StopIteration
   \<and> pack_qval 3 [] = [0x83, 0] \<and> read_qval (pack_qval 3 []) 0 = Inl StopIteration
   \<and> pack_qval 8 [] = [0x88, 0] \<and> read_qval (pack_qval 8 []) 0 = Inl StopIteration
   \<and> pack_qval 16 [] = [0x90, 0] \<and> read_qval (pack_qval 16 []) 0 = Inl StopIteration
   \<and> pack_qval 31 [] = [0x9F, 0] \<and> read_qval (pack_qval 31 []) 0 = Inl StopIteration"
  by (simp add: read_qval_zero_count) (simp add: pack_qval_empty)

end
